theory Spec2Isabelle
  imports Main "HOL-Library.Word"
begin

section \<open>GMLAN utility procedures of scapy (contrib/automotive/gm/gmlanutil.py)\<close>

text \<open>
  The module drives a GMLAN diagnostic session over a socket. Embedded here are
  \<open>InitDiagnostics\<close>, \<open>GetSecurityAccess\<close>, \<open>RequestDownload\<close>, \<open>TransferData\<close> and
  \<open>ReadMemoryByAddress\<close> (\<open>TransferPayload\<close> only calls \<open>RequestDownload\<close> and then
  \<open>TransferData\<close>). Each procedure is embedded as a function that takes the
  socket's state and returns it updated, next to the procedure's return value and the
  value its local variable \<open>retry\<close> holds when it returns. Python's integers are \<open>int\<close>.
  The \<open>verbose\<close> argument only selects what is printed and is left out; so are the
  calls of \<open>sleep\<close>.
\<close>

subsection \<open>Packets and responses\<close>

type_synonym byte = "8 word"

text \<open>A timeout is only handed on to the socket; \<open>None\<close> is Python's \<open>None\<close>.\<close>

type_synonym timeout = "nat option"

text \<open>
  Modelled from the spec: the packet classes (\<open>GMLAN\<close>, \<open>GMLAN_SA\<close>, ...) are declared in
  \<open>scapy.contrib.automotive.gm.gmlan\<close>, outside the module; a request is a service
  identifier with the fields the module sets (spec, section 3).
  The requests the module builds: \<open>GMLAN sv\<close> is \<open>GMLAN(bytes([sv]))\<close>, a bare
  service byte; the others are \<open>GMLAN() / GMLAN_XX(...)\<close> with the fields the module
  sets: \<open>GMLAN_PM subfunction\<close>, \<open>GMLAN_SA subfunction securityKey\<close> (the key absent in
  a seed request), \<open>GMLAN_RD memorySize\<close>, \<open>GMLAN_TD startingAddress dataRecord\<close>,
  \<open>GMLAN_RMBA memoryAddress memorySize\<close>.
\<close>

datatype pkt =
    GMLAN int
  | GMLAN_PM int
  | GMLAN_SA int "int option"
  | GMLAN_RD int
  | GMLAN_TD int "byte list"
  | GMLAN_RMBA int int

text \<open>
  Modelled from the spec: a response exposes its service code; a negative response
  (service 0x7f) also the echoed service identifier and the return code (section 6).
  These are the fields of a received packet that the module reads.
\<close>

record resp =
  service :: int
  returnCode :: int
  requestServiceId :: int
  securitySeed :: int
  dataRecord :: "byte list"

subsection \<open>The socket\<close>

text \<open>
  Modelled from the spec: the transport (section 6) is not part of the module. A socket
  offers \<open>send\<close> (fire and forget), \<open>sr1\<close> (send, then wait for one response or time
  out) and \<open>sniff\<close> with \<open>count = 1\<close> and a filter (wait for one matching packet or
  time out). Its state is the list \<open>inbox\<close> of what the coming waits will yield, in
  order (\<open>None\<close>: the wait times out; \<open>Some r\<close>: the packet \<open>r\<close> arrives; a wait on
  the empty list times out), and the list \<open>calls\<close> of the calls made on it so far.
  An inbox is finite: the peer falls silent in the end. Against a peer that answers
  "response pending" without end the filter loop of the source does not return; no
  inbox describes that run, and nothing below is about it.
\<close>

datatype call = Send pkt | Sr1 pkt timeout | Sniff pkt timeout

record socket =
  inbox :: "resp option list"
  calls :: "call list"

definition send :: "pkt \<Rightarrow> socket \<Rightarrow> socket" where
  "send p s = s\<lparr>calls := calls s @ [Send p]\<rparr>"

definition sr1 :: "pkt \<Rightarrow> timeout \<Rightarrow> socket \<Rightarrow> resp option \<times> socket" where
  "sr1 p t s =
     (case inbox s of
        [] \<Rightarrow> (None, s\<lparr>calls := calls s @ [Sr1 p t]\<rparr>)
      | r # rs \<Rightarrow> (r, s\<lparr>inbox := rs, calls := calls s @ [Sr1 p t]\<rparr>))"

text \<open>\<open>sniff(count=1, timeout=t, lfilter=lambda p: p.answers(pkt))\<close>: a list of at most one packet.\<close>

definition sniff :: "pkt \<Rightarrow> timeout \<Rightarrow> socket \<Rightarrow> resp list \<times> socket" where
  "sniff p t s =
     (case inbox s of
        [] \<Rightarrow> ([], s\<lparr>calls := calls s @ [Sniff p t]\<rparr>)
      | None # rs \<Rightarrow> ([], s\<lparr>inbox := rs, calls := calls s @ [Sniff p t]\<rparr>)
      | Some r # rs \<Rightarrow> ([r], s\<lparr>inbox := rs, calls := calls s @ [Sniff p t]\<rparr>))"

text \<open>The packets that a list of calls has handed to \<open>send\<close> and \<open>sr1\<close>, in order.\<close>

fun sent :: "call list \<Rightarrow> pkt list" where
  "sent [] = []"
| "sent (Send p # cs) = p # sent cs"
| "sent (Sr1 p t # cs) = p # sent cs"
| "sent (Sniff p t # cs) = sent cs"

subsection \<open>Filtering ResponsePending\<close>

text \<open>
  The inner loop that the three procedures share, with the service identifier \<open>sid\<close> of
  the request as a parameter:
  \<^verbatim>\<open>
  while (resp.service == 0x7f and resp.returnCode == 0x78 and
         resp.requestServiceId == sid):
      sniffed = socket.sniff(count=1, timeout=timeout,
                             lfilter=lambda p: p.answers(pkt))
      if len(sniffed) < 1:
          resp = None
          break
      resp = sniffed[0]
  \<close>
\<close>

definition is_ResponsePending :: "int \<Rightarrow> resp \<Rightarrow> bool" where
  "is_ResponsePending sid r \<longleftrightarrow>
     service r = 0x7f \<and> returnCode r = 0x78 \<and> requestServiceId r = sid"

function filter_ResponsePending ::
  "int \<Rightarrow> pkt \<Rightarrow> timeout \<Rightarrow> resp \<Rightarrow> socket \<Rightarrow> resp option \<times> socket" where
  "filter_ResponsePending sid pkt t r s =
     (if is_ResponsePending sid r then
        (case sniff pkt t s of
           ([], s') \<Rightarrow> (None, s')
         | (r' # _, s') \<Rightarrow> filter_ResponsePending sid pkt t r' s')
      else (Some r, s))"
  by pat_completeness auto

termination
  by (relation "measure (\<lambda>(sid, pkt, t, r, s). length (inbox s))")
     (auto simp: sniff_def split: list.splits option.splits)

text \<open>
  One attempt of a request: \<open>sr1\<close>, then the filter when a response came.
  \<^verbatim>\<open>
  resp = socket.sr1(pkt, timeout=timeout, verbose=0)
  if resp is None: ...
  else: <filter Response Pending> ...
  \<close>
\<close>

definition request_attempt :: "int \<Rightarrow> pkt \<Rightarrow> timeout \<Rightarrow> socket \<Rightarrow> resp option \<times> socket" where
  "request_attempt sid pkt t s =
     (case sr1 pkt t s of
        (None, s1) \<Rightarrow> (None, s1)
      | (Some r, s1) \<Rightarrow> filter_ResponsePending sid pkt t r s1)"

text \<open>\<open>resp is not None and resp.service == code\<close>\<close>

definition is_positive :: "int \<Rightarrow> resp option \<Rightarrow> bool" where
  "is_positive code resp = (case resp of None \<Rightarrow> False | Some r \<Rightarrow> service r = code)"

text \<open>\<open>if retry < 0: retry = -retry\<close>\<close>

definition normalize_retry :: "int \<Rightarrow> int" where
  "normalize_retry retry = (if retry < 0 then - retry else retry)"

subsection \<open>RequestDownload\<close>

text \<open>
  The \<open>while True\<close> loop of \<open>RequestDownload\<close>, from the current value of \<open>retry\<close>:
  a positive response (service 0x74) leaves the loop with \<open>True\<close>; anything else
  decrements \<open>retry\<close> and either goes round again or returns \<open>False\<close>.
\<close>

function RequestDownload_loop ::
  "int \<Rightarrow> timeout \<Rightarrow> int \<Rightarrow> socket \<Rightarrow> bool \<times> int \<times> socket" where
  "RequestDownload_loop len t retry s =
     (case request_attempt 0x34 (GMLAN_RD len) t s of
        (resp, s') \<Rightarrow>
          if is_positive 0x74 resp then (True, retry, s')
          else if retry - 1 \<ge> 0 then RequestDownload_loop len t (retry - 1) s'
          else (False, retry - 1, s'))"
  by pat_completeness auto

termination
  by (relation "measure (\<lambda>(len, t, retry, s). nat retry)") auto

definition RequestDownload ::
  "socket \<Rightarrow> int \<Rightarrow> timeout \<Rightarrow> int \<Rightarrow> bool \<times> int \<times> socket" where
  "RequestDownload s len t retry = RequestDownload_loop len t (normalize_retry retry) s"

subsection \<open>ReadMemoryByAddress\<close>

function ReadMemoryByAddress_loop ::
  "int \<Rightarrow> int \<Rightarrow> timeout \<Rightarrow> int \<Rightarrow> socket \<Rightarrow> byte list option \<times> int \<times> socket" where
  "ReadMemoryByAddress_loop addr len t retry s =
     (case request_attempt 0x23 (GMLAN_RMBA addr len) t s of
        (resp, s') \<Rightarrow>
          if is_positive 0x63 resp then (map_option dataRecord resp, retry, s')
          else if retry - 1 \<ge> 0 then ReadMemoryByAddress_loop addr len t (retry - 1) s'
          else (None, retry - 1, s'))"
  by pat_completeness auto

termination
  by (relation "measure (\<lambda>(addr, len, t, retry, s). nat retry)") auto

text \<open>
  \<open>scheme\<close> is \<open>conf.contribs['GMLAN']['GMLAN_ECU_AddressingScheme']\<close>, the number of
  bytes of an address. The result \<open>None\<close> is Python's \<open>None\<close>.
\<close>

definition ReadMemoryByAddress ::
  "nat \<Rightarrow> socket \<Rightarrow> int \<Rightarrow> int \<Rightarrow> timeout \<Rightarrow> int \<Rightarrow> byte list option \<times> int \<times> socket" where
  "ReadMemoryByAddress scheme s addr len t retry0 =
     (let retry = normalize_retry retry0 in
      if addr < 0 \<or> addr \<ge> 2 ^ (8 * scheme) then (None, retry, s)
      else if len \<le> 0 \<or> len > 4094 - int scheme then (None, retry, s)
      else ReadMemoryByAddress_loop addr len t retry s)"

subsection \<open>InitDiagnostics\<close>

text \<open>
  One pass through the body of the loop of \<open>InitDiagnostics\<close>. The result is \<open>True\<close>
  where the body reaches \<open>return True\<close> and \<open>False\<close> where it reaches a
  \<open>continue\<close>. The broadcast socket is an object of its own (or \<open>None\<close>).
\<close>

definition InitDiagnostics_body ::
  "timeout \<Rightarrow> socket \<Rightarrow> socket option \<Rightarrow> bool \<times> socket \<times> socket option" where
  "InitDiagnostics_body t s b =
     (case (case b of
              None \<Rightarrow>
                (case sr1 (GMLAN 0x28) t s of
                   (resp, s1) \<Rightarrow> (is_positive 0x68 resp, s1, None))
            | Some bs \<Rightarrow> (True, s, Some (send (GMLAN 0x28) bs))) of
        (ok1, s1, b1) \<Rightarrow>
          if \<not> ok1 then (False, s1, b1)
          else
            (case sr1 (GMLAN 0xa2) t s1 of
               (resp2, s2) \<Rightarrow>
                 if \<not> is_positive 0xe2 resp2 then (False, s2, b1)
                 else
                   (case sr1 (GMLAN_PM 0x1) t s2 of
                      (resp3, s3) \<Rightarrow>
                        if \<not> is_positive 0xe5 resp3 then (False, s3, b1)
                        else (True, send (GMLAN_PM 0x3) s3, b1))))"

text \<open>\<open>while retry >= 0: retry -= 1; ...\<close>, and \<open>return False\<close> after the loop.\<close>

function InitDiagnostics_loop ::
  "timeout \<Rightarrow> int \<Rightarrow> socket \<Rightarrow> socket option \<Rightarrow> bool \<times> int \<times> socket \<times> socket option" where
  "InitDiagnostics_loop t retry s b =
     (if retry \<ge> 0 then
        (case InitDiagnostics_body t s b of
           (ok, s', b') \<Rightarrow>
             if ok then (True, retry - 1, s', b')
             else InitDiagnostics_loop t (retry - 1) s' b')
      else (False, retry, s, b))"
  by pat_completeness auto

termination
  by (relation "measure (\<lambda>(t, retry, s, b). nat (retry + 1))") auto

definition InitDiagnostics ::
  "socket \<Rightarrow> socket option \<Rightarrow> timeout \<Rightarrow> int \<Rightarrow> bool \<times> int \<times> socket \<times> socket option" where
  "InitDiagnostics s b t retry = InitDiagnostics_loop t (normalize_retry retry) s b"

subsection \<open>GetSecurityAccess\<close>

text \<open>
  One pass through the body of the loop of \<open>GetSecurityAccess\<close>: \<open>True\<close> where it
  reaches a \<open>return True\<close>, \<open>False\<close> where it reaches a \<open>continue\<close> or falls off the
  end of the body (a key response that is neither positive nor "invalid key").
\<close>

definition GetSecurityAccess_body ::
  "(int \<Rightarrow> int) \<Rightarrow> int \<Rightarrow> timeout \<Rightarrow> socket \<Rightarrow> bool \<times> socket" where
  "GetSecurityAccess_body keyFunction level t s =
     (case sr1 (GMLAN_SA level None) t s of
        (None, s1) \<Rightarrow> (False, s1)
      | (Some resp, s1) \<Rightarrow>
          if service resp \<noteq> 0x67 then (False, s1)
          else
            (let seed = securitySeed resp in
             if seed = 0 then (True, s1)
             else
               (case sr1 (GMLAN_SA (level + 1) (Some (keyFunction seed))) t s1 of
                  (None, s2) \<Rightarrow> (False, s2)
                | (Some resp2, s2) \<Rightarrow>
                    if service resp2 = 0x67 then (True, s2)
                    else if service resp2 = 0x7F \<and> returnCode resp2 = 0x35 then (False, s2)
                    else (False, s2))))"

function GetSecurityAccess_loop ::
  "(int \<Rightarrow> int) \<Rightarrow> int \<Rightarrow> timeout \<Rightarrow> int \<Rightarrow> socket \<Rightarrow> bool \<times> int \<times> socket" where
  "GetSecurityAccess_loop keyFunction level t retry s =
     (if retry \<ge> 0 then
        (case GetSecurityAccess_body keyFunction level t s of
           (ok, s') \<Rightarrow>
             if ok then (True, retry - 1, s')
             else GetSecurityAccess_loop keyFunction level t (retry - 1) s')
      else (False, retry, s))"
  by pat_completeness auto

termination
  by (relation "measure (\<lambda>(keyFunction, level, t, retry, s). nat (retry + 1))") auto

definition GetSecurityAccess ::
  "socket \<Rightarrow> (int \<Rightarrow> int) \<Rightarrow> int \<Rightarrow> timeout \<Rightarrow> int \<Rightarrow> bool \<times> int \<times> socket" where
  "GetSecurityAccess s keyFunction level t retry0 =
     (let retry = normalize_retry retry0 in
      if level mod 2 = 0 then (False, retry, s)
      else GetSecurityAccess_loop keyFunction level t retry s)"

subsection \<open>TransferData\<close>

datatype exn = ValueError

text \<open>
  \<open>range(0, n, step)\<close> for \<open>n \<ge> 0\<close>: the offsets \<open>0, step, 2 * step, ...\<close> below
  \<open>n\<close>; empty for a negative step; Python raises \<open>ValueError\<close> for the step 0.
\<close>

function range_from :: "int \<Rightarrow> int \<Rightarrow> int \<Rightarrow> int list" where
  "range_from i n step =
     (if 0 < step \<and> i < n then i # range_from (i + step) n step else [])"
  by pat_completeness auto

termination
  by (relation "measure (\<lambda>(i, n, step). nat (n - i))") auto

definition py_range :: "int \<Rightarrow> int \<Rightarrow> exn + int list" where
  "py_range n step = (if step = 0 then Inl ValueError else Inr (range_from 0 n step))"

text \<open>
  \<open>maxmsglen\<close> after
  \<^verbatim>\<open>
  if maxmsglen is None or maxmsglen <= 0 or maxmsglen > (4093 - scheme):
      maxmsglen = (4093 - scheme)
  \<close>
\<close>

definition effective_maxmsglen :: "nat \<Rightarrow> int option \<Rightarrow> int" where
  "effective_maxmsglen scheme maxmsglen =
     (case maxmsglen of
        None \<Rightarrow> 4093 - int scheme
      | Some m \<Rightarrow> if m \<le> 0 \<or> m > 4093 - int scheme then 4093 - int scheme else m)"

text \<open>
  The data of the chunk at offset \<open>i\<close> (\<open>0 \<le> i\<close>, as \<open>range\<close> yields it):
  \<^verbatim>\<open>
  if len(payload[i:]) > maxmsglen:
      transdata = payload[i:i + maxmsglen]
  else:
      transdata = payload[i:]
  \<close>
\<close>

definition transdata :: "byte list \<Rightarrow> int \<Rightarrow> int \<Rightarrow> byte list" where
  "transdata payload maxmsglen i =
     (if int (length (drop (nat i) payload)) > maxmsglen
      then take (nat maxmsglen) (drop (nat i) payload)
      else drop (nat i) payload)"

text \<open>The \<open>while True\<close> loop for the chunk at offset \<open>i\<close>, from the current \<open>retry\<close>.\<close>

function TransferData_chunk ::
  "int \<Rightarrow> byte list \<Rightarrow> int \<Rightarrow> int \<Rightarrow> timeout \<Rightarrow> int \<Rightarrow> socket \<Rightarrow> bool \<times> int \<times> socket" where
  "TransferData_chunk addr payload maxmsglen i t retry s =
     (case request_attempt 0x36 (GMLAN_TD (addr + i) (transdata payload maxmsglen i)) t s of
        (resp, s') \<Rightarrow>
          if is_positive 0x76 resp then (True, retry, s')
          else if retry - 1 \<ge> 0
            then TransferData_chunk addr payload maxmsglen i t (retry - 1) s'
          else (False, retry - 1, s'))"
  by pat_completeness auto

termination
  by (relation "measure (\<lambda>(addr, payload, maxmsglen, i, t, retry, s). nat retry)") auto

text \<open>
  The \<open>for\<close> loop over the offsets still to do: every chunk starts from \<open>startretry\<close>;
  a chunk that fails returns \<open>False\<close> at once; \<open>return True\<close> after the loop.
\<close>

fun TransferData_for ::
  "int \<Rightarrow> byte list \<Rightarrow> int \<Rightarrow> timeout \<Rightarrow> int \<Rightarrow> int list \<Rightarrow> int \<Rightarrow> socket
     \<Rightarrow> bool \<times> int \<times> socket" where
  "TransferData_for addr payload maxmsglen t startretry [] retry s = (True, retry, s)"
| "TransferData_for addr payload maxmsglen t startretry (i # offs) retry s =
     (case TransferData_chunk addr payload maxmsglen i t startretry s of
        (ok, retry', s') \<Rightarrow>
          if ok then TransferData_for addr payload maxmsglen t startretry offs retry' s'
          else (False, retry', s'))"

definition TransferData ::
  "nat \<Rightarrow> socket \<Rightarrow> int \<Rightarrow> byte list \<Rightarrow> int option \<Rightarrow> timeout \<Rightarrow> int
     \<Rightarrow> (exn + bool) \<times> int \<times> socket" where
  "TransferData scheme s addr payload maxmsglen t retry0 =
     (let retry = normalize_retry retry0; startretry = retry in
      if addr < 0 \<or> addr \<ge> 2 ^ (8 * scheme) then (Inr False, retry, s)
      else
        (let m = effective_maxmsglen scheme maxmsglen in
         case py_range (int (length payload)) m of
           Inl e \<Rightarrow> (Inl e, retry, s)
         | Inr offs \<Rightarrow>
             (case TransferData_for addr payload m t startretry offs retry s of
                (ok, retry', s') \<Rightarrow> (Inr ok, retry', s'))))"

subsection \<open>Notions used in the statements and proofs\<close>

text \<open>
  An entry of the inbox is pending for the request with service identifier \<open>sid\<close> when
  it is a negative response (0x7f) with return code 0x78 that echoes \<open>sid\<close>: the
  condition of the filter loop.
\<close>

definition pend :: "int \<Rightarrow> resp option \<Rightarrow> bool" where
  "pend sid x = (case x of None \<Rightarrow> False | Some r \<Rightarrow> is_ResponsePending sid r)"

text \<open>The first entry of the inbox that is not pending; \<open>None\<close> when there is none.\<close>

definition next_terminal :: "int \<Rightarrow> resp option list \<Rightarrow> resp option" where
  "next_terminal sid xs = (case dropWhile (pend sid) xs of [] \<Rightarrow> None | x # _ \<Rightarrow> x)"

text \<open>
  The loops of \<open>RequestDownload\<close>, \<open>ReadMemoryByAddress\<close> and of one chunk of
  \<open>TransferData\<close> are the same loop, up to the packet, the service identifier and the
  positive code. \<open>request_loop\<close> is that loop with the three as parameters, returning
  the positive response; the proofs go through it.
\<close>

function request_loop ::
  "int \<Rightarrow> int \<Rightarrow> pkt \<Rightarrow> timeout \<Rightarrow> int \<Rightarrow> socket \<Rightarrow> resp option \<times> int \<times> socket" where
  "request_loop sid code pkt t retry s =
     (case request_attempt sid pkt t s of
        (resp, s') \<Rightarrow>
          if is_positive code resp then (resp, retry, s')
          else if retry - 1 \<ge> 0 then request_loop sid code pkt t (retry - 1) s'
          else (None, retry - 1, s'))"
  by pat_completeness auto

termination
  by (relation "measure (\<lambda>(sid, code, pkt, t, retry, s). nat retry)") auto

text \<open>The request that \<open>TransferData\<close> builds for the chunk at offset \<open>i\<close>.\<close>

definition chunk_pkt :: "int \<Rightarrow> byte list \<Rightarrow> int \<Rightarrow> int \<Rightarrow> pkt" where
  "chunk_pkt addr payload m i = GMLAN_TD (addr + i) (transdata payload m i)"

text \<open>
  \<open>repeated ps ks\<close> is the list \<open>ps\<close> with its \<open>j\<close>-th element written \<open>ks ! j\<close>
  times in a row, as far as \<open>ks\<close> reaches: the shape of the traffic of a loop that
  sends each packet until it is acknowledged.
\<close>

definition repeated :: "'a list \<Rightarrow> nat list \<Rightarrow> 'a list" where
  "repeated ps ks = concat (map2 (\<lambda>p k. replicate k p) ps ks)"

text \<open>The number of times the packet \<open>p\<close> went out on the broadcast socket, if there is one.\<close>

definition sends_opt :: "pkt \<Rightarrow> socket option \<Rightarrow> nat" where
  "sends_opt p b = (case b of None \<Rightarrow> 0 | Some bs \<Rightarrow> count_list (sent (calls bs)) p)"

text \<open>An inbox without the entries that are pending for \<open>sid\<close>.\<close>

definition strip_pending :: "int \<Rightarrow> resp option list \<Rightarrow> resp option list" where
  "strip_pending sid xs = filter (\<lambda>x. \<not> pend sid x) xs"

text \<open>
  What a call leaves to be seen from outside: its return value, the final value of
  \<open>retry\<close>, and the packets handed to \<open>send\<close> and \<open>sr1\<close>.
\<close>

definition outcome :: "'a \<times> int \<times> socket \<Rightarrow> 'a \<times> int \<times> pkt list" where
  "outcome r = (fst r, fst (snd r), sent (calls (snd (snd r))))"

section \<open>Properties\<close>

subsection \<open>The retry budget\<close>

lemma normalize_retry_nonneg: "0 \<le> normalize_retry r"
  by (simp add: normalize_retry_def)

lemma normalize_retry_abs: "normalize_retry r = \<bar>r\<bar>"
  by (simp add: normalize_retry_def)

lemma normalize_retry_idem: "normalize_retry \<bar>r\<bar> = normalize_retry r"
  by (simp add: normalize_retry_def)

lemma pow256: "(256::int) ^ n = 2 ^ (8 * n)"
  by (simp add: power_mult)

subsection \<open>One request and its pending responses\<close>

lemma sent_append: "sent (cs @ ds) = sent cs @ sent ds"
  by (induction cs rule: sent.induct) simp_all

lemma sent_replicate_Sniff: "sent (replicate n (Sniff p t)) = []"
  by (induction n) simp_all

lemma filter_ResponsePending_eq:
  "filter_ResponsePending sid pkt t r s =
     (if is_ResponsePending sid r then
        (next_terminal sid (inbox s),
         s\<lparr>inbox := tl (dropWhile (pend sid) (inbox s)),
           calls := calls s @ replicate (Suc (length (takeWhile (pend sid) (inbox s)))) (Sniff pkt t)\<rparr>)
      else (Some r, s))"
proof (induction sid pkt t r s rule: filter_ResponsePending.induct)
  case (1 sid pkt t r s)
  show ?case
  proof (cases "is_ResponsePending sid r")
    case False
    then show ?thesis by simp
  next
    case True
    show ?thesis
    proof (cases "inbox s")
      case Nil
      with True show ?thesis
        by (simp add: sniff_def next_terminal_def)
    next
      case (Cons x rs)
      show ?thesis
      proof (cases x)
        case None
        with True Cons show ?thesis
          by (simp add: sniff_def next_terminal_def pend_def)
      next
        case (Some r')
        have sn: "sniff pkt t s = ([r'], s\<lparr>inbox := rs, calls := calls s @ [Sniff pkt t]\<rparr>)"
          using Cons Some by (simp add: sniff_def)
        have ih: "filter_ResponsePending sid pkt t r' (s\<lparr>inbox := rs, calls := calls s @ [Sniff pkt t]\<rparr>) =
          (if is_ResponsePending sid r' then
            (next_terminal sid rs,
             s\<lparr>inbox := tl (dropWhile (pend sid) rs),
               calls := (calls s @ [Sniff pkt t]) @ replicate (Suc (length (takeWhile (pend sid) rs))) (Sniff pkt t)\<rparr>)
           else (Some r', s\<lparr>inbox := rs, calls := calls s @ [Sniff pkt t]\<rparr>))"
          using "1.IH" [OF True sn [symmetric] refl] by simp
        have step: "filter_ResponsePending sid pkt t r s =
            filter_ResponsePending sid pkt t r' (s\<lparr>inbox := rs, calls := calls s @ [Sniff pkt t]\<rparr>)"
          using True sn by (subst filter_ResponsePending.simps) simp
        show ?thesis
          unfolding step ih using True Cons Some
          by (simp add: next_terminal_def pend_def replicate_append_same)
      qed
    qed
  qed
qed

lemma request_attempt_eq:
  "request_attempt sid pkt t s =
     (next_terminal sid (inbox s),
      s\<lparr>inbox := tl (dropWhile (pend sid) (inbox s)),
        calls := calls s @ Sr1 pkt t # replicate (length (takeWhile (pend sid) (inbox s))) (Sniff pkt t)\<rparr>)"
proof (cases "inbox s")
  case Nil
  then show ?thesis
    by (simp add: request_attempt_def sr1_def next_terminal_def)
next
  case (Cons x rs)
  show ?thesis
  proof (cases x)
    case None
    with Cons show ?thesis
      by (simp add: request_attempt_def sr1_def next_terminal_def pend_def)
  next
    case (Some r)
    with Cons show ?thesis
      by (simp add: request_attempt_def sr1_def next_terminal_def pend_def
            filter_ResponsePending_eq replicate_append_same del: filter_ResponsePending.simps)
  qed
qed

lemma request_attempt_sent:
  "sent (calls (snd (request_attempt sid pkt t s))) = sent (calls s) @ [pkt]"
  by (simp add: request_attempt_eq sent_append sent_replicate_Sniff)

lemma request_attempt_pending:
  assumes "is_ResponsePending sid p" and "\<not> pend sid x"
    and "inbox s = replicate n (Some p) @ x # rest"
  shows "request_attempt sid pkt t s =
     (x, s\<lparr>inbox := rest, calls := calls s @ Sr1 pkt t # replicate n (Sniff pkt t)\<rparr>)"
proof -
  have pp: "pend sid (Some p)"
    using assms(1) by (simp add: pend_def)
  have d: "dropWhile (pend sid) (replicate n (Some p) @ x # rest) = x # rest"
    using pp assms(2) by (induction n) simp_all
  have tk: "takeWhile (pend sid) (replicate n (Some p) @ x # rest) = replicate n (Some p)"
    using pp assms(2) by (induction n) simp_all
  show ?thesis
    by (simp add: request_attempt_eq next_terminal_def assms(3) d tk)
qed

subsection \<open>The three retry loops as one\<close>

declare request_loop.simps [simp del]

declare RequestDownload_loop.simps [simp del]

declare ReadMemoryByAddress_loop.simps [simp del]

declare TransferData_chunk.simps [simp del]

declare GetSecurityAccess_loop.simps [simp del]

declare InitDiagnostics_loop.simps [simp del]

declare range_from.simps [simp del]

lemma RequestDownload_loop_eq:
  "RequestDownload_loop len t retry s =
     (case request_loop 0x34 0x74 (GMLAN_RD len) t retry s of
        (resp, retry', s') \<Rightarrow> (resp \<noteq> None, retry', s'))"
proof (induction len t retry s rule: RequestDownload_loop.induct)
  case (1 len t retry s)
  show ?case
    apply (subst RequestDownload_loop.simps)
    apply (subst request_loop.simps)
    using 1 by (auto simp: is_positive_def split: prod.splits option.splits)
qed

lemma ReadMemoryByAddress_loop_eq:
  "ReadMemoryByAddress_loop addr len t retry s =
     (case request_loop 0x23 0x63 (GMLAN_RMBA addr len) t retry s of
        (resp, retry', s') \<Rightarrow> (map_option dataRecord resp, retry', s'))"
proof (induction addr len t retry s rule: ReadMemoryByAddress_loop.induct)
  case (1 addr len t retry s)
  show ?case
    apply (subst ReadMemoryByAddress_loop.simps)
    apply (subst request_loop.simps)
    using 1 by (auto simp: is_positive_def split: prod.splits option.splits)
qed

lemma TransferData_chunk_eq:
  "TransferData_chunk addr payload m i t retry s =
     (case request_loop 0x36 0x76 (GMLAN_TD (addr + i) (transdata payload m i)) t retry s of
        (resp, retry', s') \<Rightarrow> (resp \<noteq> None, retry', s'))"
proof (induction addr payload m i t retry s rule: TransferData_chunk.induct)
  case (1 addr payload m i t retry s)
  show ?case
    apply (subst TransferData_chunk.simps)
    apply (subst request_loop.simps)
    using 1 by (auto simp: is_positive_def split: prod.splits option.splits)
qed

lemma request_loop_sent:
  "0 \<le> retry \<Longrightarrow> request_loop sid code pkt t retry s = (resp, retry', s') \<Longrightarrow>
     \<exists>k. 1 \<le> k \<and> int k \<le> retry + 1 \<and>
         sent (calls s') = sent (calls s) @ replicate k pkt \<and>
         retry' = retry - int k + (if resp = None then 0 else 1) \<and>
         (resp = None \<or> is_positive code resp)"
proof (induction sid code pkt t retry s rule: request_loop.induct)
  case (1 sid code pkt t retry s)
  obtain x s1 where a: "request_attempt sid pkt t s = (x, s1)"
    by (cases "request_attempt sid pkt t s")
  have s1: "sent (calls s1) = sent (calls s) @ [pkt]"
    using request_attempt_sent [of sid pkt t s] a by simp
  show ?case
  proof (cases "is_positive code x")
    case True
    then have "resp = x" "retry' = retry" "s' = s1"
      using "1.prems"(2) a by (simp_all add: request_loop.simps [of sid code pkt t retry s])
    moreover have "x \<noteq> None" using True by (cases x) (simp_all add: is_positive_def)
    ultimately show ?thesis
      using s1 True "1.prems"(1) by (intro exI [of _ 1]) simp
  next
    case False
    show ?thesis
    proof (cases "retry - 1 \<ge> 0")
      case neg: False
      then have "resp = None" "retry' = retry - 1" "s' = s1"
        using "1.prems"(2) a False by (simp_all add: request_loop.simps [of sid code pkt t retry s])
      then show ?thesis
        using s1 neg "1.prems"(1) by (intro exI [of _ 1]) simp
    next
      case pos: True
      then have rec: "request_loop sid code pkt t (retry - 1) s1 = (resp, retry', s')"
        using "1.prems"(2) a False by (simp add: request_loop.simps [of sid code pkt t retry s])
      from "1.IH" [OF a [symmetric] False pos pos rec]
      obtain k where k: "1 \<le> k" "int k \<le> retry - 1 + 1"
        "sent (calls s') = sent (calls s1) @ replicate k pkt"
        "retry' = retry - 1 - int k + (if resp = None then 0 else 1)"
        "resp = None \<or> is_positive code resp"
        by blast
      show ?thesis
        using k s1 by (intro exI [of _ "Suc k"]) (simp add: replicate_append_same)
    qed
  qed
qed

subsection \<open>Repeated packets\<close>

lemma repeated_simps [simp]:
  "repeated [] ks = []" "repeated ps [] = []"
  "repeated (p # ps) (k # ks) = replicate k p @ repeated ps ks"
  by (simp_all add: repeated_def)

lemma set_repeated: "set (repeated ps ks) \<subseteq> set ps"
proof (induction ps arbitrary: ks)
  case Nil
  then show ?case by simp
next
  case (Cons p ps)
  show ?case
  proof (cases ks)
    case Nil
    then show ?thesis by simp
  next
    case (Cons k ks')
    then show ?thesis using Cons.IH [of ks'] by auto
  qed
qed

lemma set_repeated_all:
  "length ks = length ps \<Longrightarrow> \<forall>k\<in>set ks. 1 \<le> k \<Longrightarrow> set (repeated ps ks) = set ps"
proof (induction ps arbitrary: ks)
  case Nil
  then show ?case by simp
next
  case (Cons p ps)
  then obtain k ks' where ks: "ks = k # ks'" by (cases ks) auto
  have "set (replicate k p) = {p}" using Cons.prems ks by auto
  then show ?case using Cons ks by auto
qed

lemma count_repeated:
  "distinct ps \<Longrightarrow> \<forall>k\<in>set ks. k \<le> B \<Longrightarrow> count_list (repeated ps ks) x \<le> B"
proof (induction ps arbitrary: ks)
  case Nil
  then show ?case by simp
next
  case (Cons p ps)
  show ?case
  proof (cases ks)
    case Nil
    then show ?thesis by simp
  next
    case (Cons k ks')
    show ?thesis
    proof (cases "x = p")
      case True
      then have "x \<notin> set (repeated ps ks')"
        using set_repeated [of ps ks'] Cons.prems(1) by auto
      then have "count_list (repeated ps ks') x = 0" by simp
      moreover have "count_list (replicate k p) x = k"
        using True by (induction k) simp_all
      ultimately show ?thesis using Cons Cons.prems(2) by simp
    next
      case False
      then have "count_list (replicate k p) x = 0"
        by (induction k) simp_all
      then show ?thesis
        using Cons Cons.IH [of ks'] Cons.prems by simp
    qed
  qed
qed

lemma TransferData_for_sent:
  "0 \<le> startretry \<Longrightarrow>
   TransferData_for addr payload m t startretry offs retry s = (ok, retry', s') \<Longrightarrow>
     \<exists>ks. length ks \<le> length offs \<and> (ok \<longrightarrow> length ks = length offs) \<and>
          (offs = [] \<or> ks \<noteq> []) \<and>
          (\<forall>k\<in>set ks. 1 \<le> k \<and> int k \<le> startretry + 1) \<and>
          sent (calls s') = sent (calls s) @ repeated (map (chunk_pkt addr payload m) offs) ks"
proof (induction offs arbitrary: retry s)
  case Nil
  then show ?case by (intro exI [of _ "[]"]) auto
next
  case (Cons i offs)
  obtain resp r1 s1 where
    a: "request_loop 0x36 0x76 (chunk_pkt addr payload m i) t startretry s = (resp, r1, s1)"
    by (cases "request_loop 0x36 0x76 (chunk_pkt addr payload m i) t startretry s")
  from request_loop_sent [OF Cons.prems(1) a]
  obtain k where k: "1 \<le> k" "int k \<le> startretry + 1"
    "sent (calls s1) = sent (calls s) @ replicate k (chunk_pkt addr payload m i)"
    "r1 = startretry - int k + (if resp = None then 0 else 1)"
    by blast
  have c: "TransferData_chunk addr payload m i t startretry s = (resp \<noteq> None, r1, s1)"
    using a by (simp add: TransferData_chunk_eq chunk_pkt_def)
  show ?case
  proof (cases "resp = None")
    case True
    then have "ok = False" "retry' = r1" "s' = s1"
      using Cons.prems(2) c by simp_all
    then show ?thesis
      using k True by (intro exI [of _ "[k]"]) auto
  next
    case False
    then have rec: "TransferData_for addr payload m t startretry offs r1 s1 = (ok, retry', s')"
      using Cons.prems(2) c by simp
    from Cons.IH [OF Cons.prems(1) rec]
    obtain ks where ks: "length ks \<le> length offs"
      "ok \<longrightarrow> length ks = length offs" "offs = [] \<or> ks \<noteq> []"
      "\<forall>k\<in>set ks. 1 \<le> k \<and> int k \<le> startretry + 1"
      "sent (calls s') = sent (calls s1) @ repeated (map (chunk_pkt addr payload m) offs) ks"
      by blast
    show ?thesis
      using k ks False by (intro exI [of _ "k # ks"]) auto
  qed
qed

subsection \<open>Offsets and chunks\<close>

lemma range_from_step: "0 < m \<Longrightarrow> i < n \<Longrightarrow> range_from i n m = i # range_from (i + m) n m"
  by (subst range_from.simps) simp

lemma range_from_stop: "\<not> (0 < m \<and> i < n) \<Longrightarrow> range_from i n m = []"
  by (subst range_from.simps) simp

lemma range_from_bounds: "x \<in> set (range_from i n m) \<Longrightarrow> i \<le> x \<and> x < n \<and> 0 < m"
proof (induction i n m rule: range_from.induct)
  case (1 i n step)
  show ?case
  proof (cases "0 < step \<and> i < n")
    case True
    then have "x = i \<or> x \<in> set (range_from (i + step) n step)"
      using "1.prems" by (simp add: range_from_step)
    then show ?thesis using True "1.IH" by auto
  next
    case False
    then show ?thesis using "1.prems" by (simp add: range_from_stop)
  qed
qed

lemma distinct_range_from: "distinct (range_from i n m)"
proof (induction i n m rule: range_from.induct)
  case (1 i n step)
  show ?case
  proof (cases "0 < step \<and> i < n")
    case True
    have "i \<notin> set (range_from (i + step) n step)"
      using range_from_bounds [of i "i + step" n step] True by auto
    then show ?thesis using True "1.IH" by (simp add: range_from_step)
  next
    case False
    then show ?thesis by (simp add: range_from_stop)
  qed
qed

lemma div_below: 
  fixes a b :: int
  assumes "0 < b" "a < b" shows "a div b \<le> 0"
proof -
  have "a div b \<le> (b - 1) div b"
    using assms by (intro zdiv_mono1) simp_all
  also have "(b - 1) div b = 0"
    using assms by (simp add: div_pos_pos_trivial)
  finally show ?thesis .
qed

lemma length_range_from:
  "0 < m \<Longrightarrow> length (range_from i n m) = nat ((n - i + m - 1) div m)"
proof (induction i n m rule: range_from.induct)
  case (1 i n step)
  show ?case
  proof (cases "i < n")
    case True
    have e: "n - i + step - 1 = (n - i - 1) + step" by simp
    have "step \<noteq> 0" using "1.prems" by simp
    then have "(n - i - 1 + step) div step = (n - i - 1) div step + 1"
      by (rule div_add_self2)
    then have "(n - i + step - 1) div step = (n - i - 1) div step + 1"
      by (simp only: e)
    moreover have "0 \<le> (n - i - 1) div step"
      using True "1.prems" by (simp add: pos_imp_zdiv_nonneg_iff)
    moreover have "n - (i + step) + step - 1 = n - i - 1" by simp
    ultimately show ?thesis
      using True "1.prems" "1.IH" by (simp add: range_from_step nat_add_distrib)
  next
    case False
    then have "n - i + step - 1 < step" by simp
    then have "(n - i + step - 1) div step \<le> 0"
      using "1.prems" by (intro div_below)
    then show ?thesis using False by (simp add: range_from_stop)
  qed
qed

lemma nth_range_from:
  "j < length (range_from i n m) \<Longrightarrow> range_from i n m ! j = i + int j * m"
proof (induction i n m arbitrary: j rule: range_from.induct)
  case (1 i n step)
  show ?case
  proof (cases "0 < step \<and> i < n")
    case True
    show ?thesis
    proof (cases j)
      case 0
      then show ?thesis using True by (simp add: range_from_step)
    next
      case (Suc j')
      then have "j' < length (range_from (i + step) n step)"
        using "1.prems" True by (simp add: range_from_step)
      from "1.IH" [OF True this] show ?thesis
        using True Suc by (simp add: range_from_step algebra_simps)
    qed
  next
    case False
    then show ?thesis using "1.prems" by (simp add: range_from_stop)
  qed
qed

lemma range_from_map:
  "0 < m \<Longrightarrow> range_from 0 n m = map (\<lambda>j. int j * m) [0 ..< nat ((n + m - 1) div m)]"
  by (rule nth_equalityI) (simp_all add: length_range_from nth_range_from)

lemma transdata_drop:
  "0 < m \<Longrightarrow> 0 \<le> i \<Longrightarrow>
     transdata payload m i @ drop (nat (i + m)) payload = drop (nat i) payload"
proof -
  assume a: "0 < m" "0 \<le> i"
  have d: "drop (nat (i + m)) payload = drop (nat m) (drop (nat i) payload)"
    using a by (simp add: nat_add_distrib add.commute)
  show ?thesis
    unfolding d transdata_def by (simp del: drop_drop)
qed

lemma concat_transdata:
  "0 < m \<Longrightarrow> 0 \<le> i \<Longrightarrow>
     concat (map (transdata payload m) (range_from i (int (length payload)) m)) = drop (nat i) payload"
proof (induction i "int (length payload)" m rule: range_from.induct)
  case (1 i step)
  show ?case
  proof (cases "0 < step \<and> i < int (length payload)")
    case True
    have ih: "concat (map (transdata payload step) (range_from (i + step) (int (length payload)) step)) =
        drop (nat (i + step)) payload"
      using "1.hyps" [OF True] True "1.prems" by simp
    show ?thesis
      using True ih "1.prems" by (simp add: range_from_step transdata_drop)
  next
    case False
    then show ?thesis
      using "1.prems" by (auto simp: range_from_stop)
  qed
qed

lemma length_transdata: "0 \<le> m \<Longrightarrow> int (length (transdata payload m i)) \<le> m"
  by (auto simp: transdata_def)

lemma chunk_pkt_inj: "inj_on (chunk_pkt addr payload m) A"
  by (rule inj_onI) (simp add: chunk_pkt_def)

lemma effective_maxmsglen_le: "effective_maxmsglen scheme maxmsglen \<le> 4093 - int scheme"
  by (auto simp: effective_maxmsglen_def split: option.splits)

lemma effective_maxmsglen_pos: "scheme < 4093 \<Longrightarrow> 0 < effective_maxmsglen scheme maxmsglen"
  by (auto simp: effective_maxmsglen_def split: option.splits)

lemma TransferData_unfold:
  assumes "0 \<le> addr" "addr < 256 ^ scheme" "effective_maxmsglen scheme maxmsglen \<noteq> 0"
  shows "TransferData scheme s addr payload maxmsglen t retry =
     (case TransferData_for addr payload (effective_maxmsglen scheme maxmsglen) t
             (normalize_retry retry)
             (range_from 0 (int (length payload)) (effective_maxmsglen scheme maxmsglen))
             (normalize_retry retry) s of
        (ok, retry', s') \<Rightarrow> (Inr ok, retry', s'))"
  using assms by (simp add: TransferData_def Let_def py_range_def pow256)

lemma TransferData_sent:
  "\<exists>ks. length ks \<le> length (range_from 0 (int (length payload)) (effective_maxmsglen scheme maxmsglen)) \<and>
     (fst (TransferData scheme s addr payload maxmsglen t retry) = Inr True \<longrightarrow>
        length ks = length (range_from 0 (int (length payload)) (effective_maxmsglen scheme maxmsglen))) \<and>
     (0 \<le> addr \<and> addr < 256 ^ scheme \<and> scheme < 4093 \<and> payload \<noteq> [] \<longrightarrow> ks \<noteq> []) \<and>
     (\<forall>k\<in>set ks. 1 \<le> k \<and> int k \<le> \<bar>retry\<bar> + 1) \<and>
     sent (calls (snd (snd (TransferData scheme s addr payload maxmsglen t retry)))) =
       sent (calls s) @
       repeated (map (chunk_pkt addr payload (effective_maxmsglen scheme maxmsglen))
          (range_from 0 (int (length payload)) (effective_maxmsglen scheme maxmsglen))) ks"
  (is "\<exists>ks. ?P ks")
proof (cases "0 \<le> addr \<and> addr < 256 ^ scheme \<and> effective_maxmsglen scheme maxmsglen \<noteq> 0")
  case True
  let ?m = "effective_maxmsglen scheme maxmsglen"
  let ?offs = "range_from 0 (int (length payload)) ?m"
  obtain ok r' s' where f: "TransferData_for addr payload ?m t (normalize_retry retry) ?offs
      (normalize_retry retry) s = (ok, r', s')"
    by (cases "TransferData_for addr payload ?m t (normalize_retry retry) ?offs (normalize_retry retry) s")
  have td: "TransferData scheme s addr payload maxmsglen t retry = (Inr ok, r', s')"
    using True f by (simp add: TransferData_unfold)
  from TransferData_for_sent [OF normalize_retry_nonneg f]
  obtain ks where ks: "length ks \<le> length ?offs" "ok \<longrightarrow> length ks = length ?offs"
    "?offs = [] \<or> ks \<noteq> []"
    "\<forall>k\<in>set ks. 1 \<le> k \<and> int k \<le> normalize_retry retry + 1"
    "sent (calls s') = sent (calls s) @ repeated (map (chunk_pkt addr payload ?m) ?offs) ks"
    by blast
  have "payload \<noteq> [] \<Longrightarrow> scheme < 4093 \<Longrightarrow> ?offs \<noteq> []"
    using effective_maxmsglen_pos [of scheme maxmsglen]
    by (simp add: range_from_step)
  then have "?P ks"
    using ks td by (auto simp: normalize_retry_abs)
  then show ?thesis ..
next
  case False
  then have "snd (snd (TransferData scheme s addr payload maxmsglen t retry)) = s \<and>
      fst (TransferData scheme s addr payload maxmsglen t retry) \<noteq> Inr True"
    by (auto simp: TransferData_def Let_def py_range_def pow256)
  moreover have "scheme < 4093 \<Longrightarrow> effective_maxmsglen scheme maxmsglen \<noteq> 0"
    using effective_maxmsglen_pos [of scheme maxmsglen] by simp
  ultimately have "?P []"
    using False by auto
  then show ?thesis ..
qed

lemmas eval_simps = TransferData_def Let_def py_range_def effective_maxmsglen_def
  range_from_step range_from_stop TransferData_chunk.simps request_attempt_def sr1_def sniff_def
  is_positive_def is_ResponsePending_def transdata_def normalize_retry_def

subsection \<open>Attempt cycles\<close>

lemma GetSecurityAccess_body_seed_requests:
  "count_list (sent (calls (snd (GetSecurityAccess_body keyFunction level t s)))) (GMLAN_SA level None) =
     count_list (sent (calls s)) (GMLAN_SA level None) + 1"
  by (simp add: GetSecurityAccess_body_def sr1_def Let_def sent_append
      split: list.splits option.splits)

lemma GetSecurityAccess_loop_seed_requests:
  "- 1 \<le> retry \<Longrightarrow>
   count_list (sent (calls (snd (snd (GetSecurityAccess_loop keyFunction level t retry s)))))
       (GMLAN_SA level None) \<le>
     count_list (sent (calls s)) (GMLAN_SA level None) + nat (retry + 1)"
proof (induction keyFunction level t retry s rule: GetSecurityAccess_loop.induct)
  case (1 keyFunction level t retry s)
  show ?case
  proof (cases "retry \<ge> 0")
    case False
    then show ?thesis by (simp add: GetSecurityAccess_loop.simps [of _ _ _ retry])
  next
    case True
    obtain ok s1 where b: "GetSecurityAccess_body keyFunction level t s = (ok, s1)"
      by (cases "GetSecurityAccess_body keyFunction level t s")
    have c: "count_list (sent (calls s1)) (GMLAN_SA level None) =
        count_list (sent (calls s)) (GMLAN_SA level None) + 1"
      using GetSecurityAccess_body_seed_requests [of keyFunction level t s] b by simp
    show ?thesis
    proof (cases ok)
      case True
      then show ?thesis
        using \<open>retry \<ge> 0\<close> b c by (simp add: GetSecurityAccess_loop.simps [of _ _ _ retry])
    next
      case False
      have "count_list (sent (calls (snd (snd (GetSecurityAccess_loop keyFunction level t (retry - 1) s1)))))
          (GMLAN_SA level None) \<le>
        count_list (sent (calls s1)) (GMLAN_SA level None) + nat (retry - 1 + 1)"
        using "1.IH" [OF True b [symmetric] False] True by simp
      then show ?thesis
        using True False b c by (simp add: GetSecurityAccess_loop.simps [of _ _ _ retry] nat_add_distrib)
    qed
  qed
qed

lemma InitDiagnostics_body_cycles:
  "InitDiagnostics_body t s b = (ok, s', b') \<Longrightarrow>
   count_list (sent (calls s')) (GMLAN 0x28) + sends_opt (GMLAN 0x28) b' =
     count_list (sent (calls s)) (GMLAN 0x28) + sends_opt (GMLAN 0x28) b + 1"
  by (cases b)
     (auto simp: InitDiagnostics_body_def sr1_def send_def sends_opt_def sent_append
      split: list.splits option.splits if_splits prod.splits)

lemma InitDiagnostics_loop_cycles:
  "- 1 \<le> retry \<Longrightarrow> InitDiagnostics_loop t retry s b = (ok, retry', s', b') \<Longrightarrow>
   count_list (sent (calls s')) (GMLAN 0x28) + sends_opt (GMLAN 0x28) b' \<le>
     count_list (sent (calls s)) (GMLAN 0x28) + sends_opt (GMLAN 0x28) b + nat (retry + 1)"
proof (induction t retry s b rule: InitDiagnostics_loop.induct)
  case (1 t retry s b)
  show ?case
  proof (cases "retry \<ge> 0")
    case False
    then show ?thesis using "1.prems" by (simp add: InitDiagnostics_loop.simps [of _ retry])
  next
    case True
    obtain ok1 s1 b1 where bd: "InitDiagnostics_body t s b = (ok1, s1, b1)"
      by (cases "InitDiagnostics_body t s b")
    note c = InitDiagnostics_body_cycles [OF bd]
    show ?thesis
    proof (cases ok1)
      case True
      then show ?thesis
        using \<open>retry \<ge> 0\<close> bd c "1.prems" by (simp add: InitDiagnostics_loop.simps [of _ retry])
    next
      case False
      have rec: "InitDiagnostics_loop t (retry - 1) s1 b1 = (ok, retry', s', b')"
        using True False bd "1.prems" by (simp add: InitDiagnostics_loop.simps [of _ retry])
      have "count_list (sent (calls s')) (GMLAN 0x28) + sends_opt (GMLAN 0x28) b' \<le>
        count_list (sent (calls s1)) (GMLAN 0x28) + sends_opt (GMLAN 0x28) b1 + nat (retry - 1 + 1)"
        using "1.IH" [OF True bd [symmetric] _ False _ rec] True by simp
      then show ?thesis
        using True c by (simp add: nat_add_distrib)
    qed
  qed
qed

lemma RequestDownload_sends:
  "length (sent (calls (snd (snd (RequestDownload s len t retry))))) \<le>
     length (sent (calls s)) + nat \<bar>retry\<bar> + 1"
proof -
  obtain resp r' s' where a:
    "request_loop 0x34 0x74 (GMLAN_RD len) t (normalize_retry retry) s = (resp, r', s')"
    by (cases "request_loop 0x34 0x74 (GMLAN_RD len) t (normalize_retry retry) s")
  from request_loop_sent [OF normalize_retry_nonneg a]
  obtain k where "int k \<le> normalize_retry retry + 1"
    "sent (calls s') = sent (calls s) @ replicate k (GMLAN_RD len)"
    by blast
  then show ?thesis
    using a by (simp add: RequestDownload_def RequestDownload_loop_eq normalize_retry_abs)
qed

lemma ReadMemoryByAddress_sends:
  "length (sent (calls (snd (snd (ReadMemoryByAddress scheme s addr len t retry))))) \<le>
     length (sent (calls s)) + nat \<bar>retry\<bar> + 1"
proof (cases "addr < 0 \<or> addr \<ge> 2 ^ (8 * scheme) \<or> len \<le> 0 \<or> len > 4094 - int scheme")
  case True
  then show ?thesis by (auto simp: ReadMemoryByAddress_def Let_def)
next
  case False
  obtain resp r' s' where a:
    "request_loop 0x23 0x63 (GMLAN_RMBA addr len) t (normalize_retry retry) s = (resp, r', s')"
    by (cases "request_loop 0x23 0x63 (GMLAN_RMBA addr len) t (normalize_retry retry) s")
  from request_loop_sent [OF normalize_retry_nonneg a]
  obtain k where "int k \<le> normalize_retry retry + 1"
    "sent (calls s') = sent (calls s) @ replicate k (GMLAN_RMBA addr len)"
    by blast
  then show ?thesis
    using a False
    by (simp add: ReadMemoryByAddress_def Let_def ReadMemoryByAddress_loop_eq normalize_retry_abs)
qed

lemma TransferData_sends:
  "count_list (sent (calls (snd (snd (TransferData scheme s addr payload maxmsglen t retry))))) p \<le>
     count_list (sent (calls s)) p + nat \<bar>retry\<bar> + 1"
proof -
  let ?m = "effective_maxmsglen scheme maxmsglen"
  let ?offs = "range_from 0 (int (length payload)) ?m"
  obtain ks where ks: "\<forall>k\<in>set ks. 1 \<le> k \<and> int k \<le> \<bar>retry\<bar> + 1"
    "sent (calls (snd (snd (TransferData scheme s addr payload maxmsglen t retry)))) =
       sent (calls s) @ repeated (map (chunk_pkt addr payload ?m) ?offs) ks"
    using TransferData_sent [of payload scheme maxmsglen s addr t retry] by blast
  have d: "distinct (map (chunk_pkt addr payload ?m) ?offs)"
    by (simp add: distinct_map distinct_range_from chunk_pkt_inj)
  have "\<forall>k\<in>set ks. k \<le> nat \<bar>retry\<bar> + 1"
    using ks(1) by auto
  from count_repeated [OF d this]
  have "count_list (repeated (map (chunk_pkt addr payload ?m) ?offs) ks) p \<le> nat \<bar>retry\<bar> + 1" .
  then show ?thesis
    unfolding ks(2) by simp
qed

lemma GetSecurityAccess_sends:
  "count_list (sent (calls (snd (snd (GetSecurityAccess s keyFunction level t retry)))))
       (GMLAN_SA level None) \<le>
     count_list (sent (calls s)) (GMLAN_SA level None) + nat \<bar>retry\<bar> + 1"
proof (cases "level mod 2 = 0")
  case True
  then show ?thesis by (simp add: GetSecurityAccess_def)
next
  case False
  have "- 1 \<le> normalize_retry retry"
    using normalize_retry_nonneg [of retry] by simp
  from GetSecurityAccess_loop_seed_requests [OF this, of keyFunction level t s]
  show ?thesis
    using False normalize_retry_nonneg [of retry]
    by (simp add: GetSecurityAccess_def Let_def normalize_retry_abs nat_add_distrib)
qed

lemma InitDiagnostics_sends:
  "InitDiagnostics s b t retry = (ok, retry', s', b') \<Longrightarrow>
   count_list (sent (calls s')) (GMLAN 0x28) + sends_opt (GMLAN 0x28) b' \<le>
     count_list (sent (calls s)) (GMLAN 0x28) + sends_opt (GMLAN 0x28) b + nat \<bar>retry\<bar> + 1"
proof -
  assume a: "InitDiagnostics s b t retry = (ok, retry', s', b')"
  have "- 1 \<le> normalize_retry retry"
    using normalize_retry_nonneg [of retry] by simp
  from InitDiagnostics_loop_cycles [OF this a [unfolded InitDiagnostics_def]]
  show ?thesis
    using normalize_retry_nonneg [of retry]
    by (simp add: normalize_retry_abs nat_add_distrib)
qed

text \<open>
  C2. Every procedure replaces its \<open>retry\<close> argument by the absolute value, so a call
  with \<open>retry\<close> is the call with \<open>\<bar>retry\<bar>\<close>; and no retry loop goes round more than
  \<open>\<bar>retry\<bar> + 1\<close> times, whatever arrives on the socket. A cycle of
  \<open>InitDiagnostics\<close> starts with the packet 0x28, on the socket or on the broadcast
  socket; a cycle of \<open>GetSecurityAccess\<close> starts with the seed request; a cycle of
  \<open>RequestDownload\<close> and of \<open>ReadMemoryByAddress\<close> sends the one request, and these
  two send nothing else; \<open>TransferData\<close> has one loop for each chunk, and the requests
  of different chunks differ, so no packet \<open>p\<close> goes out more than \<open>\<bar>retry\<bar> + 1\<close>
  times.
\<close>

theorem retry_budget:
  "normalize_retry retry = \<bar>retry\<bar> \<and>
   InitDiagnostics s b t retry = InitDiagnostics s b t \<bar>retry\<bar> \<and>
   GetSecurityAccess s keyFunction level t retry = GetSecurityAccess s keyFunction level t \<bar>retry\<bar> \<and>
   RequestDownload s len t retry = RequestDownload s len t \<bar>retry\<bar> \<and>
   TransferData scheme s addr payload maxmsglen t retry =
     TransferData scheme s addr payload maxmsglen t \<bar>retry\<bar> \<and>
   ReadMemoryByAddress scheme s addr len t retry = ReadMemoryByAddress scheme s addr len t \<bar>retry\<bar> \<and>
   (case InitDiagnostics s b t retry of
      (ok, retry', s', b') \<Rightarrow>
        count_list (sent (calls s')) (GMLAN 0x28) + sends_opt (GMLAN 0x28) b' \<le>
          count_list (sent (calls s)) (GMLAN 0x28) + sends_opt (GMLAN 0x28) b + nat \<bar>retry\<bar> + 1) \<and>
   count_list (sent (calls (snd (snd (GetSecurityAccess s keyFunction level t retry)))))
       (GMLAN_SA level None) \<le>
     count_list (sent (calls s)) (GMLAN_SA level None) + nat \<bar>retry\<bar> + 1 \<and>
   length (sent (calls (snd (snd (RequestDownload s len t retry))))) \<le>
     length (sent (calls s)) + nat \<bar>retry\<bar> + 1 \<and>
   count_list (sent (calls (snd (snd (TransferData scheme s addr payload maxmsglen t retry))))) p \<le>
     count_list (sent (calls s)) p + nat \<bar>retry\<bar> + 1 \<and>
   length (sent (calls (snd (snd (ReadMemoryByAddress scheme s addr len t retry))))) \<le>
     length (sent (calls s)) + nat \<bar>retry\<bar> + 1"
proof -
  have 1: "InitDiagnostics s b t retry = InitDiagnostics s b t \<bar>retry\<bar>"
    by (simp add: InitDiagnostics_def normalize_retry_idem)
  have 2: "GetSecurityAccess s keyFunction level t retry =
      GetSecurityAccess s keyFunction level t \<bar>retry\<bar>"
    by (simp add: GetSecurityAccess_def normalize_retry_idem)
  have 3: "RequestDownload s len t retry = RequestDownload s len t \<bar>retry\<bar>"
    by (simp add: RequestDownload_def normalize_retry_idem)
  have 4: "TransferData scheme s addr payload maxmsglen t retry =
     TransferData scheme s addr payload maxmsglen t \<bar>retry\<bar>"
    by (simp add: TransferData_def normalize_retry_idem)
  have 5: "ReadMemoryByAddress scheme s addr len t retry =
      ReadMemoryByAddress scheme s addr len t \<bar>retry\<bar>"
    by (simp add: ReadMemoryByAddress_def normalize_retry_idem)
  have 6: "case InitDiagnostics s b t retry of
      (ok, retry', s', b') \<Rightarrow>
        count_list (sent (calls s')) (GMLAN 0x28) + sends_opt (GMLAN 0x28) b' \<le>
          count_list (sent (calls s)) (GMLAN 0x28) + sends_opt (GMLAN 0x28) b + nat \<bar>retry\<bar> + 1"
    using InitDiagnostics_sends [of s b t retry]
    by (cases "InitDiagnostics s b t retry") simp
  show ?thesis
    by (intro conjI normalize_retry_abs 1 2 3 4 5 6 GetSecurityAccess_sends RequestDownload_sends
        TransferData_sends ReadMemoryByAddress_sends)
qed

theorem retry_budget_witness:
  "length (sent (calls (snd (snd (RequestDownload \<lparr>inbox = [], calls = []\<rparr> 7 None (- 2)))))) \<le>
     length (sent (calls \<lparr>inbox = [], calls = []\<rparr>)) + nat \<bar>- 2\<bar> + 1 \<and>
   RequestDownload \<lparr>inbox = [], calls = []\<rparr> 7 None (- 2) =
     (False, - 1,
      \<lparr>inbox = [],
       calls = [Sr1 (GMLAN_RD 7) None, Sr1 (GMLAN_RD 7) None, Sr1 (GMLAN_RD 7) None]\<rparr>) \<and>
   GetSecurityAccess \<lparr>inbox = [], calls = []\<rparr> (\<lambda>seed. seed + 1) 1 None 1 =
     (False, - 1,
      \<lparr>inbox = [], calls = [Sr1 (GMLAN_SA 1 None) None, Sr1 (GMLAN_SA 1 None) None]\<rparr>) \<and>
   InitDiagnostics \<lparr>inbox = [], calls = []\<rparr> (Some \<lparr>inbox = [], calls = []\<rparr>) None 1 =
     (False, - 1,
      \<lparr>inbox = [], calls = [Sr1 (GMLAN 0xa2) None, Sr1 (GMLAN 0xa2) None]\<rparr>,
      Some \<lparr>inbox = [], calls = [Send (GMLAN 0x28), Send (GMLAN 0x28)]\<rparr>)"
proof -
  from retry_budget [where retry = "- 2" and s = "\<lparr>inbox = [], calls = []\<rparr>" and len = 7
      and t = None, THEN conjunct2, THEN conjunct2, THEN conjunct2, THEN conjunct2,
      THEN conjunct2, THEN conjunct2, THEN conjunct2, THEN conjunct2, THEN conjunct1]
  have a: "length (sent (calls (snd (snd (RequestDownload \<lparr>inbox = [], calls = []\<rparr> 7 None (- 2)))))) \<le>
     length (sent (calls \<lparr>inbox = [], calls = []\<rparr>)) + nat \<bar>- 2\<bar> + 1"
    .
  have b: "RequestDownload \<lparr>inbox = [], calls = []\<rparr> 7 None (- 2) =
     (False, - 1,
      \<lparr>inbox = [],
       calls = [Sr1 (GMLAN_RD 7) None, Sr1 (GMLAN_RD 7) None, Sr1 (GMLAN_RD 7) None]\<rparr>)"
    by (simp add: RequestDownload_def RequestDownload_loop.simps eval_simps)
  have c: "GetSecurityAccess \<lparr>inbox = [], calls = []\<rparr> (\<lambda>seed. seed + 1) 1 None 1 =
     (False, - 1,
      \<lparr>inbox = [], calls = [Sr1 (GMLAN_SA 1 None) None, Sr1 (GMLAN_SA 1 None) None]\<rparr>)"
    by (simp add: GetSecurityAccess_def GetSecurityAccess_loop.simps GetSecurityAccess_body_def
        eval_simps)
  have d: "InitDiagnostics \<lparr>inbox = [], calls = []\<rparr> (Some \<lparr>inbox = [], calls = []\<rparr>) None 1 =
     (False, - 1,
      \<lparr>inbox = [], calls = [Sr1 (GMLAN 0xa2) None, Sr1 (GMLAN 0xa2) None]\<rparr>,
      Some \<lparr>inbox = [], calls = [Send (GMLAN 0x28), Send (GMLAN 0x28)]\<rparr>)"
    by (simp add: InitDiagnostics_def InitDiagnostics_loop.simps InitDiagnostics_body_def
        send_def eval_simps)
  show ?thesis by (intro conjI a b c d)
qed

subsection \<open>Pending responses\<close>

lemma dropWhile_filter_not: "dropWhile P (filter (\<lambda>x. \<not> P x) xs) = filter (\<lambda>x. \<not> P x) xs"
  by (induction xs) simp_all

lemma takeWhile_filter_not: "takeWhile P (filter (\<lambda>x. \<not> P x) xs) = []"
  by (induction xs) simp_all

lemma filter_not_dropWhile: "filter (\<lambda>x. \<not> P x) (dropWhile P xs) = filter (\<lambda>x. \<not> P x) xs"
  by (induction xs) simp_all

lemma filter_not_dropWhile_Cons:
  "dropWhile P xs = y # ys \<Longrightarrow> filter (\<lambda>x. \<not> P x) xs = y # filter (\<lambda>x. \<not> P x) ys"
proof -
  assume a: "dropWhile P xs = y # ys"
  then have "\<not> P y" using hd_dropWhile [of P xs] by auto
  then show ?thesis
    using filter_not_dropWhile [of P xs] a by simp
qed

lemma filter_not_dropWhile_Nil:
  "dropWhile P xs = [] \<Longrightarrow> filter (\<lambda>x. \<not> P x) xs = []"
  using filter_not_dropWhile [of P xs] by simp

lemma request_attempt_strip:
  assumes "inbox s2 = strip_pending sid (inbox s)" and "sent (calls s2) = sent (calls s)"
  shows "fst (request_attempt sid pkt t s2) = fst (request_attempt sid pkt t s) \<and>
     inbox (snd (request_attempt sid pkt t s2)) =
       strip_pending sid (inbox (snd (request_attempt sid pkt t s))) \<and>
     sent (calls (snd (request_attempt sid pkt t s2))) =
       sent (calls (snd (request_attempt sid pkt t s)))"
proof (cases "dropWhile (pend sid) (inbox s)")
  case Nil
  show ?thesis
    using assms filter_not_dropWhile_Nil [OF Nil]
    by (simp add: Nil request_attempt_eq strip_pending_def next_terminal_def
        sent_append sent_replicate_Sniff)
next
  case (Cons y ys)
  have "\<not> pend sid y"
    using hd_dropWhile [of "pend sid" "inbox s"] Cons by auto
  then show ?thesis
    using assms filter_not_dropWhile_Cons [OF Cons]
    by (simp add: Cons request_attempt_eq strip_pending_def next_terminal_def
        sent_append sent_replicate_Sniff)
qed

lemma request_loop_strip:
  "inbox s2 = strip_pending sid (inbox s) \<Longrightarrow> sent (calls s2) = sent (calls s) \<Longrightarrow>
     fst (request_loop sid code pkt t retry s2) = fst (request_loop sid code pkt t retry s) \<and>
     fst (snd (request_loop sid code pkt t retry s2)) = fst (snd (request_loop sid code pkt t retry s)) \<and>
     inbox (snd (snd (request_loop sid code pkt t retry s2))) =
       strip_pending sid (inbox (snd (snd (request_loop sid code pkt t retry s)))) \<and>
     sent (calls (snd (snd (request_loop sid code pkt t retry s2)))) =
       sent (calls (snd (snd (request_loop sid code pkt t retry s))))"
proof (induction sid code pkt t retry s arbitrary: s2 rule: request_loop.induct)
  case (1 sid code pkt t retry s)
  obtain x s1 where a: "request_attempt sid pkt t s = (x, s1)"
    by (cases "request_attempt sid pkt t s")
  obtain x2 s12 where a2: "request_attempt sid pkt t s2 = (x2, s12)"
    by (cases "request_attempt sid pkt t s2")
  have r: "x2 = x" "inbox s12 = strip_pending sid (inbox s1)" "sent (calls s12) = sent (calls s1)"
    using request_attempt_strip [OF "1.prems", of pkt t] a a2 by simp_all
  show ?case
  proof (cases "is_positive code x")
    case True
    then show ?thesis
      using a a2 r
      by (simp add: request_loop.simps [of sid code pkt t retry s]
          request_loop.simps [of sid code pkt t retry s2])
  next
    case False
    show ?thesis
    proof (cases "retry - 1 \<ge> 0")
      case neg: False
      then show ?thesis
        using a a2 r False
        by (simp add: request_loop.simps [of sid code pkt t retry s]
            request_loop.simps [of sid code pkt t retry s2])
    next
      case pos: True
      have e: "request_loop sid code pkt t retry s = request_loop sid code pkt t (retry - 1) s1"
        using a False pos by (simp add: request_loop.simps [of sid code pkt t retry s])
      have e2: "request_loop sid code pkt t retry s2 = request_loop sid code pkt t (retry - 1) s12"
        using a2 r(1) False pos by (simp add: request_loop.simps [of sid code pkt t retry s2])
      show ?thesis
        unfolding e e2 using "1.IH" [OF a [symmetric] False pos r(2,3)] .
    qed
  qed
qed

lemma request_loop_view:
  assumes "strip_pending sid (inbox a) = strip_pending sid (inbox b)"
    and "sent (calls a) = sent (calls b)"
  shows "fst (request_loop sid code pkt t retry a) = fst (request_loop sid code pkt t retry b) \<and>
     fst (snd (request_loop sid code pkt t retry a)) = fst (snd (request_loop sid code pkt t retry b)) \<and>
     strip_pending sid (inbox (snd (snd (request_loop sid code pkt t retry a)))) =
       strip_pending sid (inbox (snd (snd (request_loop sid code pkt t retry b)))) \<and>
     sent (calls (snd (snd (request_loop sid code pkt t retry a)))) =
       sent (calls (snd (snd (request_loop sid code pkt t retry b))))"
proof -
  let ?c = "a\<lparr>inbox := strip_pending sid (inbox a)\<rparr>"
  have ca: "inbox ?c = strip_pending sid (inbox a)" "sent (calls ?c) = sent (calls a)"
    by simp_all
  have cb: "inbox ?c = strip_pending sid (inbox b)" "sent (calls ?c) = sent (calls b)"
    using assms by simp_all
  from request_loop_strip [OF ca, of code pkt t retry] request_loop_strip [OF cb, of code pkt t retry]
  show ?thesis by simp
qed

lemma TransferData_for_view:
  "strip_pending 0x36 (inbox a) = strip_pending 0x36 (inbox b) \<Longrightarrow>
   sent (calls a) = sent (calls b) \<Longrightarrow>
     fst (TransferData_for addr payload m t startretry offs retry a) =
       fst (TransferData_for addr payload m t startretry offs retry b) \<and>
     fst (snd (TransferData_for addr payload m t startretry offs retry a)) =
       fst (snd (TransferData_for addr payload m t startretry offs retry b)) \<and>
     sent (calls (snd (snd (TransferData_for addr payload m t startretry offs retry a)))) =
       sent (calls (snd (snd (TransferData_for addr payload m t startretry offs retry b))))"
proof (induction offs arbitrary: retry a b)
  case Nil
  then show ?case by simp
next
  case (Cons i offs)
  let ?p = "GMLAN_TD (addr + i) (transdata payload m i)"
  obtain xa ra a' where la: "request_loop 0x36 0x76 ?p t startretry a = (xa, ra, a')"
    by (cases "request_loop 0x36 0x76 ?p t startretry a")
  obtain xb rb b' where lb: "request_loop 0x36 0x76 ?p t startretry b = (xb, rb, b')"
    by (cases "request_loop 0x36 0x76 ?p t startretry b")
  have r: "xa = xb" "ra = rb" "strip_pending 0x36 (inbox a') = strip_pending 0x36 (inbox b')"
    "sent (calls a') = sent (calls b')"
    using request_loop_view [where code = "0x76" and pkt = ?p and t = t and retry = startretry,
        OF Cons.prems] la lb by simp_all
  show ?case
  proof (cases "xb = None")
    case True
    then show ?thesis using la lb r by (simp add: TransferData_chunk_eq)
  next
    case False
    then show ?thesis
      using la lb r Cons.IH [where retry = rb, OF r(3,4)] by (simp add: TransferData_chunk_eq)
  qed
qed

lemma RequestDownload_view:
  assumes "strip_pending 0x34 (inbox a) = strip_pending 0x34 (inbox b)"
    and "sent (calls a) = sent (calls b)"
  shows "outcome (RequestDownload a len t retry) = outcome (RequestDownload b len t retry)"
  using request_loop_view [where code = "0x74" and pkt = "GMLAN_RD len" and t = t
      and retry = "normalize_retry retry", OF assms]
  by (simp add: outcome_def RequestDownload_def RequestDownload_loop_eq case_prod_beta)

lemma ReadMemoryByAddress_view:
  assumes "strip_pending 0x23 (inbox a) = strip_pending 0x23 (inbox b)"
    and "sent (calls a) = sent (calls b)"
  shows "outcome (ReadMemoryByAddress scheme a addr len t retry) =
     outcome (ReadMemoryByAddress scheme b addr len t retry)"
  using request_loop_view [where code = "0x63" and pkt = "GMLAN_RMBA addr len" and t = t
      and retry = "normalize_retry retry", OF assms] assms(2)
  by (simp add: outcome_def ReadMemoryByAddress_def Let_def ReadMemoryByAddress_loop_eq
      case_prod_beta)

lemma TransferData_view:
  assumes "strip_pending 0x36 (inbox a) = strip_pending 0x36 (inbox b)"
    and "sent (calls a) = sent (calls b)"
  shows "outcome (TransferData scheme a addr payload maxmsglen t retry) =
     outcome (TransferData scheme b addr payload maxmsglen t retry)"
  using TransferData_for_view [where addr = addr and payload = payload
      and m = "effective_maxmsglen scheme maxmsglen" and t = t
      and startretry = "normalize_retry retry"
      and offs = "range_from 0 (int (length payload)) (effective_maxmsglen scheme maxmsglen)"
      and retry = "normalize_retry retry", OF assms] assms(2)
  by (simp add: outcome_def TransferData_def Let_def py_range_def case_prod_beta)

lemma strip_pending_insert:
  "is_ResponsePending sid p \<Longrightarrow>
     strip_pending sid (xs @ replicate n (Some p) @ ys) = strip_pending sid (xs @ ys)"
  by (simp add: strip_pending_def pend_def)

text \<open>
  C1. In the loops of \<open>RequestDownload\<close>, of a chunk of \<open>TransferData\<close> and of
  \<open>ReadMemoryByAddress\<close>, let any number \<open>n\<close> of responses that are pending for the
  request arrive, followed by \<open>x\<close>, which is not pending (a timeout, \<open>None\<close>, or any
  other packet). Then the \<open>n\<close> responses are taken up by \<open>n\<close> calls of \<open>sniff\<close> and
  leave \<open>retry\<close> as it is: a positive \<open>x\<close> ends the loop with \<open>retry\<close> unchanged, and
  any other \<open>x\<close> takes exactly one off \<open>retry\<close>. And for the three procedures as a whole:
  putting \<open>n\<close> pending responses anywhere into what arrives changes neither the return
  value, nor the final value of \<open>retry\<close>, nor the packets sent.
\<close>

theorem ResponsePending_keeps_retry:
  assumes "is_ResponsePending 0x34 p34" and "is_ResponsePending 0x36 p36"
    and "is_ResponsePending 0x23 p23"
  shows "(\<not> pend 0x34 x \<longrightarrow>
        RequestDownload_loop len t retry (s\<lparr>inbox := replicate n (Some p34) @ x # rest\<rparr>) =
          (let pkt = GMLAN_RD len;
               s' = s\<lparr>inbox := rest, calls := calls s @ Sr1 pkt t # replicate n (Sniff pkt t)\<rparr>
           in if is_positive 0x74 x then (True, retry, s')
              else if retry - 1 \<ge> 0 then RequestDownload_loop len t (retry - 1) s'
              else (False, retry - 1, s'))) \<and>
     (\<not> pend 0x36 x \<longrightarrow>
        TransferData_chunk addr payload m i t retry (s\<lparr>inbox := replicate n (Some p36) @ x # rest\<rparr>) =
          (let pkt = GMLAN_TD (addr + i) (transdata payload m i);
               s' = s\<lparr>inbox := rest, calls := calls s @ Sr1 pkt t # replicate n (Sniff pkt t)\<rparr>
           in if is_positive 0x76 x then (True, retry, s')
              else if retry - 1 \<ge> 0 then TransferData_chunk addr payload m i t (retry - 1) s'
              else (False, retry - 1, s'))) \<and>
     (\<not> pend 0x23 x \<longrightarrow>
        ReadMemoryByAddress_loop addr len t retry (s\<lparr>inbox := replicate n (Some p23) @ x # rest\<rparr>) =
          (let pkt = GMLAN_RMBA addr len;
               s' = s\<lparr>inbox := rest, calls := calls s @ Sr1 pkt t # replicate n (Sniff pkt t)\<rparr>
           in if is_positive 0x63 x then (map_option dataRecord x, retry, s')
              else if retry - 1 \<ge> 0 then ReadMemoryByAddress_loop addr len t (retry - 1) s'
              else (None, retry - 1, s'))) \<and>
     outcome (RequestDownload (s\<lparr>inbox := xs @ replicate n (Some p34) @ ys\<rparr>) len t retry) =
       outcome (RequestDownload (s\<lparr>inbox := xs @ ys\<rparr>) len t retry) \<and>
     outcome (TransferData scheme (s\<lparr>inbox := xs @ replicate n (Some p36) @ ys\<rparr>)
         addr payload maxmsglen t retry) =
       outcome (TransferData scheme (s\<lparr>inbox := xs @ ys\<rparr>) addr payload maxmsglen t retry) \<and>
     outcome (ReadMemoryByAddress scheme (s\<lparr>inbox := xs @ replicate n (Some p23) @ ys\<rparr>)
         addr len t retry) =
       outcome (ReadMemoryByAddress scheme (s\<lparr>inbox := xs @ ys\<rparr>) addr len t retry)"
proof -
  have 1: "\<not> pend 0x34 x \<longrightarrow>
        RequestDownload_loop len t retry (s\<lparr>inbox := replicate n (Some p34) @ x # rest\<rparr>) =
          (let pkt = GMLAN_RD len;
               s' = s\<lparr>inbox := rest, calls := calls s @ Sr1 pkt t # replicate n (Sniff pkt t)\<rparr>
           in if is_positive 0x74 x then (True, retry, s')
              else if retry - 1 \<ge> 0 then RequestDownload_loop len t (retry - 1) s'
              else (False, retry - 1, s'))"
  proof
    assume x: "\<not> pend 0x34 x"
    show "RequestDownload_loop len t retry (s\<lparr>inbox := replicate n (Some p34) @ x # rest\<rparr>) =
          (let pkt = GMLAN_RD len;
               s' = s\<lparr>inbox := rest, calls := calls s @ Sr1 pkt t # replicate n (Sniff pkt t)\<rparr>
           in if is_positive 0x74 x then (True, retry, s')
              else if retry - 1 \<ge> 0 then RequestDownload_loop len t (retry - 1) s'
              else (False, retry - 1, s'))"
      by (subst RequestDownload_loop.simps)
         (simp add: request_attempt_pending [OF assms(1) x] Let_def)
  qed
  have 2: "\<not> pend 0x36 x \<longrightarrow>
        TransferData_chunk addr payload m i t retry (s\<lparr>inbox := replicate n (Some p36) @ x # rest\<rparr>) =
          (let pkt = GMLAN_TD (addr + i) (transdata payload m i);
               s' = s\<lparr>inbox := rest, calls := calls s @ Sr1 pkt t # replicate n (Sniff pkt t)\<rparr>
           in if is_positive 0x76 x then (True, retry, s')
              else if retry - 1 \<ge> 0 then TransferData_chunk addr payload m i t (retry - 1) s'
              else (False, retry - 1, s'))"
  proof
    assume x: "\<not> pend 0x36 x"
    show "TransferData_chunk addr payload m i t retry (s\<lparr>inbox := replicate n (Some p36) @ x # rest\<rparr>) =
          (let pkt = GMLAN_TD (addr + i) (transdata payload m i);
               s' = s\<lparr>inbox := rest, calls := calls s @ Sr1 pkt t # replicate n (Sniff pkt t)\<rparr>
           in if is_positive 0x76 x then (True, retry, s')
              else if retry - 1 \<ge> 0 then TransferData_chunk addr payload m i t (retry - 1) s'
              else (False, retry - 1, s'))"
      by (subst TransferData_chunk.simps)
         (simp add: request_attempt_pending [OF assms(2) x] Let_def)
  qed
  have 3: "\<not> pend 0x23 x \<longrightarrow>
        ReadMemoryByAddress_loop addr len t retry (s\<lparr>inbox := replicate n (Some p23) @ x # rest\<rparr>) =
          (let pkt = GMLAN_RMBA addr len;
               s' = s\<lparr>inbox := rest, calls := calls s @ Sr1 pkt t # replicate n (Sniff pkt t)\<rparr>
           in if is_positive 0x63 x then (map_option dataRecord x, retry, s')
              else if retry - 1 \<ge> 0 then ReadMemoryByAddress_loop addr len t (retry - 1) s'
              else (None, retry - 1, s'))"
  proof
    assume x: "\<not> pend 0x23 x"
    show "ReadMemoryByAddress_loop addr len t retry (s\<lparr>inbox := replicate n (Some p23) @ x # rest\<rparr>) =
          (let pkt = GMLAN_RMBA addr len;
               s' = s\<lparr>inbox := rest, calls := calls s @ Sr1 pkt t # replicate n (Sniff pkt t)\<rparr>
           in if is_positive 0x63 x then (map_option dataRecord x, retry, s')
              else if retry - 1 \<ge> 0 then ReadMemoryByAddress_loop addr len t (retry - 1) s'
              else (None, retry - 1, s'))"
      by (subst ReadMemoryByAddress_loop.simps)
         (simp add: request_attempt_pending [OF assms(3) x] Let_def)
  qed
  have 4: "outcome (RequestDownload (s\<lparr>inbox := xs @ replicate n (Some p34) @ ys\<rparr>) len t retry) =
       outcome (RequestDownload (s\<lparr>inbox := xs @ ys\<rparr>) len t retry)"
    by (rule RequestDownload_view) (simp_all add: strip_pending_insert [OF assms(1)])
  have 5: "outcome (TransferData scheme (s\<lparr>inbox := xs @ replicate n (Some p36) @ ys\<rparr>)
         addr payload maxmsglen t retry) =
       outcome (TransferData scheme (s\<lparr>inbox := xs @ ys\<rparr>) addr payload maxmsglen t retry)"
    by (rule TransferData_view) (simp_all add: strip_pending_insert [OF assms(2)])
  have 6: "outcome (ReadMemoryByAddress scheme (s\<lparr>inbox := xs @ replicate n (Some p23) @ ys\<rparr>)
         addr len t retry) =
       outcome (ReadMemoryByAddress scheme (s\<lparr>inbox := xs @ ys\<rparr>) addr len t retry)"
    by (rule ReadMemoryByAddress_view) (simp_all add: strip_pending_insert [OF assms(3)])
  show ?thesis by (intro conjI 1 2 3 4 5 6)
qed

theorem ResponsePending_keeps_retry_witness:
  "is_ResponsePending 0x34 \<lparr>service = 0x7f, returnCode = 0x78, requestServiceId = 0x34,
      securitySeed = 0, dataRecord = []\<rparr> \<and>
   is_ResponsePending 0x36 \<lparr>service = 0x7f, returnCode = 0x78, requestServiceId = 0x36,
      securitySeed = 0, dataRecord = []\<rparr> \<and>
   is_ResponsePending 0x23 \<lparr>service = 0x7f, returnCode = 0x78, requestServiceId = 0x23,
      securitySeed = 0, dataRecord = []\<rparr> \<and>
   \<not> pend 0x23 (Some \<lparr>service = 0x63, returnCode = 0, requestServiceId = 0,
      securitySeed = 0, dataRecord = [1, 2]\<rparr>) \<and>
   ReadMemoryByAddress_loop 0x100 2 None 0
     \<lparr>inbox = [Some \<lparr>service = 0x7f, returnCode = 0x78, requestServiceId = 0x23,
                     securitySeed = 0, dataRecord = []\<rparr>,
                Some \<lparr>service = 0x7f, returnCode = 0x78, requestServiceId = 0x23,
                     securitySeed = 0, dataRecord = []\<rparr>,
                Some \<lparr>service = 0x63, returnCode = 0, requestServiceId = 0,
                     securitySeed = 0, dataRecord = [1, 2]\<rparr>],
      calls = []\<rparr> =
     (Some [1, 2], 0,
      \<lparr>inbox = [],
       calls = [Sr1 (GMLAN_RMBA 0x100 2) None, Sniff (GMLAN_RMBA 0x100 2) None,
                Sniff (GMLAN_RMBA 0x100 2) None]\<rparr>)"
proof -
  let ?p34 = "\<lparr>service = 0x7f, returnCode = 0x78, requestServiceId = 0x34,
      securitySeed = 0, dataRecord = []\<rparr>"
  let ?p36 = "\<lparr>service = 0x7f, returnCode = 0x78, requestServiceId = 0x36,
      securitySeed = 0, dataRecord = []\<rparr>"
  let ?p23 = "\<lparr>service = 0x7f, returnCode = 0x78, requestServiceId = 0x23,
      securitySeed = 0, dataRecord = []\<rparr>"
  let ?r = "\<lparr>service = 0x63, returnCode = 0, requestServiceId = 0,
      securitySeed = 0, dataRecord = [1, 2::byte]\<rparr>"
  have h1: "is_ResponsePending 0x34 ?p34" and h2: "is_ResponsePending 0x36 ?p36"
    and h3: "is_ResponsePending 0x23 ?p23"
    by (simp_all add: is_ResponsePending_def)
  have h4: "\<not> pend 0x23 (Some ?r)"
    by (simp add: pend_def is_ResponsePending_def)
  from ResponsePending_keeps_retry [OF h1 h2 h3, where x = "Some ?r" and n = "Suc (Suc 0)"
      and rest = "[]" and s = "\<lparr>inbox = [], calls = []\<rparr>" and addr = "0x100" and len = 2
      and t = None and retry = 0, THEN conjunct2, THEN conjunct2, THEN conjunct1]
  have "\<not> pend 0x23 (Some ?r) \<longrightarrow>
        ReadMemoryByAddress_loop 0x100 2 None 0
          (\<lparr>inbox = [], calls = []\<rparr>\<lparr>inbox := replicate (Suc (Suc 0)) (Some ?p23) @ Some ?r # []\<rparr>) =
          (let pkt = GMLAN_RMBA 0x100 2;
               s' = \<lparr>inbox = [], calls = []\<rparr>\<lparr>inbox := [],
                 calls := calls \<lparr>inbox = [], calls = []\<rparr> @ Sr1 pkt None # replicate (Suc (Suc 0)) (Sniff pkt None)\<rparr>
           in if is_positive 0x63 (Some ?r) then (map_option dataRecord (Some ?r), 0, s')
              else if 0 - 1 \<ge> (0::int) then ReadMemoryByAddress_loop 0x100 2 None (0 - 1) s'
              else (None, 0 - 1, s'))"
    .
  then have e: "ReadMemoryByAddress_loop 0x100 2 None 0
     \<lparr>inbox = [Some ?p23, Some ?p23, Some ?r], calls = []\<rparr> =
     (Some [1, 2], 0,
      \<lparr>inbox = [],
       calls = [Sr1 (GMLAN_RMBA 0x100 2) None, Sniff (GMLAN_RMBA 0x100 2) None,
                Sniff (GMLAN_RMBA 0x100 2) None]\<rparr>)"
    using h4 by (simp add: is_positive_def Let_def)
  show ?thesis by (intro conjI h1 h2 h3 h4 e)
qed

subsection \<open>Checks made before any packet is sent\<close>

text \<open>
  C5. With an even \<open>level\<close>, \<open>GetSecurityAccess\<close> returns \<open>False\<close> and leaves the
  socket as it found it (nothing sent, nothing received), whatever the retry value, the
  timeout and the key function.
\<close>

theorem GetSecurityAccess_even_level:
  "level mod 2 = 0 \<Longrightarrow>
     GetSecurityAccess s keyFunction level t retry = (False, normalize_retry retry, s)"
  by (simp add: GetSecurityAccess_def)

theorem GetSecurityAccess_even_level_witness:
  "(4::int) mod 2 = 0 \<and>
   GetSecurityAccess \<lparr>inbox = [None], calls = []\<rparr> (\<lambda>seed. seed + 1) 4 (Some 5) (- 3) =
     (False, 3, \<lparr>inbox = [None], calls = []\<rparr>)"
  using GetSecurityAccess_even_level
    [of 4 "\<lparr>inbox = [None], calls = []\<rparr>" "\<lambda>seed. seed + 1" "Some 5" "- 3"]
  by (simp add: normalize_retry_def)

text \<open>
  C7. \<open>ReadMemoryByAddress\<close> with an address outside \<open>[0, 256 ^ scheme)\<close>, or with a
  length above \<open>4094 - scheme\<close>, returns \<open>None\<close> and leaves the socket as it found it.
\<close>

theorem ReadMemoryByAddress_invalid:
  "addr < 0 \<or> 256 ^ scheme \<le> addr \<or> 4094 - int scheme < len \<Longrightarrow>
     ReadMemoryByAddress scheme s addr len t retry = (None, normalize_retry retry, s)"
  by (auto simp: ReadMemoryByAddress_def Let_def pow256)

theorem ReadMemoryByAddress_invalid_witness:
  "((65536::int) < 0 \<or> 256 ^ 2 \<le> (65536::int) \<or> 4094 - int 2 < (16::int)) \<and>
   ReadMemoryByAddress 2 \<lparr>inbox = [None], calls = []\<rparr> 65536 16 None 2 =
     (None, 2, \<lparr>inbox = [None], calls = []\<rparr>) \<and>
   ((0::int) < 0 \<or> 256 ^ 2 \<le> (0::int) \<or> 4094 - int 2 < (4093::int)) \<and>
   ReadMemoryByAddress 2 \<lparr>inbox = [None], calls = []\<rparr> 0 4093 None 2 =
     (None, 2, \<lparr>inbox = [None], calls = []\<rparr>)"
  using ReadMemoryByAddress_invalid [of 65536 2 16 "\<lparr>inbox = [None], calls = []\<rparr>" None 2]
    ReadMemoryByAddress_invalid [of 0 2 4093 "\<lparr>inbox = [None], calls = []\<rparr>" None 2]
  by (simp add: normalize_retry_def)

text \<open>
  C9. \<open>TransferData\<close> with a valid address and the empty payload returns \<open>True\<close> and
  leaves the socket as it found it. The addressing scheme is a width of a few bytes; the
  one width excluded, 4093, makes the step of \<open>range\<close> zero.
\<close>

theorem TransferData_empty_payload:
  assumes "0 \<le> addr" and "addr < 256 ^ scheme" and "scheme \<noteq> 4093"
  shows "TransferData scheme s addr [] maxmsglen t retry = (Inr True, normalize_retry retry, s)"
proof -
  have "effective_maxmsglen scheme maxmsglen \<noteq> 0"
    using assms(3) by (auto simp: effective_maxmsglen_def split: option.splits)
  then show ?thesis
    using assms(1,2) by (simp add: TransferData_def Let_def py_range_def pow256 range_from_stop)
qed

theorem TransferData_empty_payload_witness:
  "(0::int) \<le> 255 \<and> (255::int) < 256 ^ 1 \<and> (1::nat) \<noteq> 4093 \<and>
   TransferData 1 \<lparr>inbox = [None], calls = []\<rparr> 255 [] (Some 8) None 1 =
     (Inr True, 1, \<lparr>inbox = [None], calls = []\<rparr>)"
  using TransferData_empty_payload [of 255 1 "\<lparr>inbox = [None], calls = []\<rparr>" "Some 8" None 1]
  by (simp add: normalize_retry_def)

subsection \<open>The seed and key exchange\<close>

text \<open>
  C6. In \<open>GetSecurityAccess\<close> with an odd level, when the first response is positive
  (service 0x67) and its seed is zero, the call returns \<open>True\<close> having made exactly one
  call on the socket, the seed request; no key is sent.
\<close>

theorem GetSecurityAccess_zero_seed:
  assumes "level mod 2 \<noteq> 0" and "inbox s = Some r # rest"
    and "service r = 0x67" and "securitySeed r = 0"
  shows "GetSecurityAccess s keyFunction level t retry =
     (True, normalize_retry retry - 1,
      s\<lparr>inbox := rest, calls := calls s @ [Sr1 (GMLAN_SA level None) t]\<rparr>)"
  using assms normalize_retry_nonneg [of retry]
  by (simp add: GetSecurityAccess_def Let_def GetSecurityAccess_loop.simps GetSecurityAccess_body_def sr1_def)

theorem GetSecurityAccess_zero_seed_witness:
  "(1::int) mod 2 \<noteq> 0 \<and>
   GetSecurityAccess
     \<lparr>inbox = [Some \<lparr>service = 0x67, returnCode = 0, requestServiceId = 0,
                     securitySeed = 0, dataRecord = []\<rparr>, None], calls = []\<rparr>
     (\<lambda>seed. seed + 1) 1 None 0 =
     (True, - 1, \<lparr>inbox = [None], calls = [Sr1 (GMLAN_SA 1 None) None]\<rparr>)"
  using GetSecurityAccess_zero_seed
    [of 1 "\<lparr>inbox = [Some \<lparr>service = 0x67, returnCode = 0, requestServiceId = 0,
                     securitySeed = 0, dataRecord = []\<rparr>, None], calls = []\<rparr>"
        "\<lparr>service = 0x67, returnCode = 0, requestServiceId = 0,
                     securitySeed = 0, dataRecord = []\<rparr>" "[None]" "\<lambda>seed. seed + 1" None 0]
  by (simp add: normalize_retry_def)

lemma GetSecurityAccess_body_first_call:
  "\<exists>cs. calls (snd (GetSecurityAccess_body keyFunction level t s)) =
     calls s @ Sr1 (GMLAN_SA level None) t # cs"
  by (simp add: GetSecurityAccess_body_def sr1_def Let_def split: list.splits option.splits)

lemma GetSecurityAccess_loop_calls:
  "\<exists>cs. calls (snd (snd (GetSecurityAccess_loop keyFunction level t retry s))) = calls s @ cs"
proof (induction keyFunction level t retry s rule: GetSecurityAccess_loop.induct)
  case (1 keyFunction level t retry s)
  show ?case
  proof (cases "retry \<ge> 0")
    case False
    then show ?thesis by (simp add: GetSecurityAccess_loop.simps [of _ _ _ retry])
  next
    case True
    obtain ok s1 where b: "GetSecurityAccess_body keyFunction level t s = (ok, s1)"
      by (cases "GetSecurityAccess_body keyFunction level t s")
    obtain cs where cs: "calls s1 = calls s @ Sr1 (GMLAN_SA level None) t # cs"
      using GetSecurityAccess_body_first_call [of keyFunction level t s] b by auto
    show ?thesis
    proof (cases ok)
      case True
      then show ?thesis
        using \<open>retry \<ge> 0\<close> b cs by (simp add: GetSecurityAccess_loop.simps [of _ _ _ retry])
    next
      case False
      obtain ds where "calls (snd (snd (GetSecurityAccess_loop keyFunction level t (retry - 1) s1))) =
          calls s1 @ ds"
        using "1.IH" [OF True b [symmetric] False] by blast
      then show ?thesis
        using True False b cs by (simp add: GetSecurityAccess_loop.simps [of _ _ _ retry])
    qed
  qed
qed

lemma GetSecurityAccess_loop_first_call:
  assumes "0 \<le> retry"
  shows "\<exists>cs. calls (snd (snd (GetSecurityAccess_loop keyFunction level t retry s))) =
     calls s @ Sr1 (GMLAN_SA level None) t # cs"
proof -
  obtain ok s1 where b: "GetSecurityAccess_body keyFunction level t s = (ok, s1)"
    by (cases "GetSecurityAccess_body keyFunction level t s")
  obtain cs where cs: "calls s1 = calls s @ Sr1 (GMLAN_SA level None) t # cs"
    using GetSecurityAccess_body_first_call [of keyFunction level t s] b by auto
  obtain ds where ds: "calls (snd (snd (GetSecurityAccess_loop keyFunction level t (retry - 1) s1))) =
      calls s1 @ ds"
    using GetSecurityAccess_loop_calls by blast
  show ?thesis
    using assms b cs ds by (cases ok) (simp_all add: GetSecurityAccess_loop.simps [of _ _ _ retry])
qed

lemma GetSecurityAccess_loop_key_step:
  assumes "0 \<le> retry" and "inbox s = Some r # x # rest"
    and "service r = 0x67" and "securitySeed r \<noteq> 0"
    and "s2 = s\<lparr>inbox := rest,
                 calls := calls s @ [Sr1 (GMLAN_SA level None) t,
                   Sr1 (GMLAN_SA (level + 1) (Some (keyFunction (securitySeed r)))) t]\<rparr>"
  shows "((\<exists>r2. x = Some r2 \<and> service r2 = 0x67) \<longrightarrow>
        GetSecurityAccess_loop keyFunction level t retry s = (True, retry - 1, s2)) \<and>
     ((\<exists>r2. x = Some r2 \<and> service r2 = 0x7f \<and> returnCode r2 = 0x35) \<longrightarrow>
        GetSecurityAccess_loop keyFunction level t retry s =
          GetSecurityAccess_loop keyFunction level t (retry - 1) s2) \<and>
     (x = None \<or> (\<exists>r2. x = Some r2 \<and> service r2 \<noteq> 0x67) \<longrightarrow>
        GetSecurityAccess_loop keyFunction level t retry s =
          GetSecurityAccess_loop keyFunction level t (retry - 1) s2) \<and>
     (0 \<le> retry - 1 \<longrightarrow>
        (\<exists>cs. calls (snd (snd (GetSecurityAccess_loop keyFunction level t (retry - 1) s2))) =
           calls s2 @ Sr1 (GMLAN_SA level None) t # cs)) \<and>
     (retry - 1 < 0 \<longrightarrow>
        GetSecurityAccess_loop keyFunction level t (retry - 1) s2 = (False, retry - 1, s2))"
proof -
  have body: "GetSecurityAccess_body keyFunction level t s =
      ((case x of None \<Rightarrow> False | Some r2 \<Rightarrow> service r2 = 0x67), s2)"
    using assms(2-5)
    by (simp add: GetSecurityAccess_body_def sr1_def Let_def split: option.splits)
  have 1: "(\<exists>r2. x = Some r2 \<and> service r2 = 0x67) \<longrightarrow>
        GetSecurityAccess_loop keyFunction level t retry s = (True, retry - 1, s2)"
    using assms(1) body by (auto simp: GetSecurityAccess_loop.simps [of _ _ _ retry s])
  have 3: "x = None \<or> (\<exists>r2. x = Some r2 \<and> service r2 \<noteq> 0x67) \<longrightarrow>
        GetSecurityAccess_loop keyFunction level t retry s =
          GetSecurityAccess_loop keyFunction level t (retry - 1) s2"
    using assms(1) body by (auto simp: GetSecurityAccess_loop.simps [of _ _ _ retry s])
  have 2: "(\<exists>r2. x = Some r2 \<and> service r2 = 0x7f \<and> returnCode r2 = 0x35) \<longrightarrow>
        GetSecurityAccess_loop keyFunction level t retry s =
          GetSecurityAccess_loop keyFunction level t (retry - 1) s2"
    using 3 by auto
  have 4: "0 \<le> retry - 1 \<longrightarrow>
        (\<exists>cs. calls (snd (snd (GetSecurityAccess_loop keyFunction level t (retry - 1) s2))) =
           calls s2 @ Sr1 (GMLAN_SA level None) t # cs)"
    using GetSecurityAccess_loop_first_call by blast
  have 5: "retry - 1 < 0 \<longrightarrow>
        GetSecurityAccess_loop keyFunction level t (retry - 1) s2 = (False, retry - 1, s2)"
    by (simp add: GetSecurityAccess_loop.simps [of _ _ _ "retry - 1" s2])
  show ?thesis by (intro conjI 1 2 3 4 5)
qed

text \<open>
  C8. In \<open>GetSecurityAccess\<close> with an odd level, let a positive seed response with a
  seed other than zero arrive first, and then \<open>x\<close> in answer to the key. The first two
  calls are the seed request and the key request at \<open>level + 1\<close> with the key of that
  seed. A positive \<open>x\<close> returns \<open>True\<close>. A negative \<open>x\<close> with the return code 0x35
  (invalid key), and likewise a timeout or any other packet, costs one retry and starts
  over: with a retry left, the call goes on as a call with \<open>\<bar>retry\<bar> - 1\<close> on the
  socket as it is then, whose first call is a new seed request (no seed is kept);
  with none left, it returns \<open>False\<close> after these two calls.
\<close>

theorem GetSecurityAccess_key_step:
  assumes "level mod 2 \<noteq> 0" and "inbox s = Some r # x # rest"
    and "service r = 0x67" and "securitySeed r \<noteq> 0"
    and "s2 = s\<lparr>inbox := rest,
                 calls := calls s @ [Sr1 (GMLAN_SA level None) t,
                   Sr1 (GMLAN_SA (level + 1) (Some (keyFunction (securitySeed r)))) t]\<rparr>"
  shows "((\<exists>r2. x = Some r2 \<and> service r2 = 0x67) \<longrightarrow>
        GetSecurityAccess s keyFunction level t retry = (True, \<bar>retry\<bar> - 1, s2)) \<and>
     ((\<exists>r2. x = Some r2 \<and> service r2 = 0x7f \<and> returnCode r2 = 0x35) \<longrightarrow>
        GetSecurityAccess s keyFunction level t retry =
          (if 1 \<le> \<bar>retry\<bar> then GetSecurityAccess s2 keyFunction level t (\<bar>retry\<bar> - 1)
           else (False, - 1, s2))) \<and>
     (x = None \<or> (\<exists>r2. x = Some r2 \<and> service r2 \<noteq> 0x67) \<longrightarrow>
        GetSecurityAccess s keyFunction level t retry =
          (if 1 \<le> \<bar>retry\<bar> then GetSecurityAccess s2 keyFunction level t (\<bar>retry\<bar> - 1)
           else (False, - 1, s2))) \<and>
     (1 \<le> \<bar>retry\<bar> \<longrightarrow>
        (\<exists>cs. calls (snd (snd (GetSecurityAccess s2 keyFunction level t (\<bar>retry\<bar> - 1)))) =
           calls s2 @ Sr1 (GMLAN_SA level None) t # cs))"
proof -
  have n: "0 \<le> \<bar>retry\<bar>" by simp
  note L = GetSecurityAccess_loop_key_step [where keyFunction = keyFunction, OF n assms(2-5)]
  have top: "GetSecurityAccess s keyFunction level t retry =
      GetSecurityAccess_loop keyFunction level t \<bar>retry\<bar> s"
    using assms(1) by (simp add: GetSecurityAccess_def Let_def normalize_retry_abs)
  have cont: "GetSecurityAccess_loop keyFunction level t (\<bar>retry\<bar> - 1) s2 =
      (if 1 \<le> \<bar>retry\<bar> then GetSecurityAccess s2 keyFunction level t (\<bar>retry\<bar> - 1)
       else (False, - 1, s2))"
  proof (cases "1 \<le> \<bar>retry\<bar>")
    case True
    then have "normalize_retry (\<bar>retry\<bar> - 1) = \<bar>retry\<bar> - 1"
      by (simp add: normalize_retry_def)
    then show ?thesis
      using True assms(1) by (simp add: GetSecurityAccess_def Let_def)
  next
    case False
    then have r0: "retry = 0" by simp
    show ?thesis
      by (simp add: r0 GetSecurityAccess_loop.simps [of _ _ _ "- 1"])
  qed
  have 1: "(\<exists>r2. x = Some r2 \<and> service r2 = 0x67) \<longrightarrow>
        GetSecurityAccess s keyFunction level t retry = (True, \<bar>retry\<bar> - 1, s2)"
    unfolding top using L [THEN conjunct1] .
  have 2: "(\<exists>r2. x = Some r2 \<and> service r2 = 0x7f \<and> returnCode r2 = 0x35) \<longrightarrow>
        GetSecurityAccess s keyFunction level t retry =
          (if 1 \<le> \<bar>retry\<bar> then GetSecurityAccess s2 keyFunction level t (\<bar>retry\<bar> - 1)
           else (False, - 1, s2))"
    unfolding top cont [symmetric] using L [THEN conjunct2, THEN conjunct1] .
  have 3: "x = None \<or> (\<exists>r2. x = Some r2 \<and> service r2 \<noteq> 0x67) \<longrightarrow>
        GetSecurityAccess s keyFunction level t retry =
          (if 1 \<le> \<bar>retry\<bar> then GetSecurityAccess s2 keyFunction level t (\<bar>retry\<bar> - 1)
           else (False, - 1, s2))"
    unfolding top cont [symmetric] using L [THEN conjunct2, THEN conjunct2, THEN conjunct1] .
  have 4: "1 \<le> \<bar>retry\<bar> \<longrightarrow>
        (\<exists>cs. calls (snd (snd (GetSecurityAccess s2 keyFunction level t (\<bar>retry\<bar> - 1)))) =
           calls s2 @ Sr1 (GMLAN_SA level None) t # cs)"
  proof
    assume a: "1 \<le> \<bar>retry\<bar>"
    then have "0 \<le> \<bar>retry\<bar> - 1" by simp
    from GetSecurityAccess_loop_first_call [OF this, of keyFunction level t s2]
    show "\<exists>cs. calls (snd (snd (GetSecurityAccess s2 keyFunction level t (\<bar>retry\<bar> - 1)))) =
           calls s2 @ Sr1 (GMLAN_SA level None) t # cs"
      using a cont by simp
  qed
  show ?thesis by (intro conjI 1 2 3 4)
qed

theorem GetSecurityAccess_key_step_witness:
  "(1::int) mod 2 \<noteq> 0 \<and>
   service \<lparr>service = 0x67, returnCode = 0, requestServiceId = 0,
      securitySeed = 0x1234, dataRecord = []\<rparr> = 0x67 \<and>
   securitySeed \<lparr>service = 0x67, returnCode = 0, requestServiceId = 0,
      securitySeed = 0x1234, dataRecord = []\<rparr> \<noteq> 0 \<and>
   GetSecurityAccess
     \<lparr>inbox = [Some \<lparr>service = 0x67, returnCode = 0, requestServiceId = 0,
                     securitySeed = 0x1234, dataRecord = []\<rparr>,
                Some \<lparr>service = 0x7f, returnCode = 0x35, requestServiceId = 0x27,
                     securitySeed = 0, dataRecord = []\<rparr>,
                Some \<lparr>service = 0x67, returnCode = 0, requestServiceId = 0,
                     securitySeed = 5, dataRecord = []\<rparr>,
                Some \<lparr>service = 0x67, returnCode = 0, requestServiceId = 0,
                     securitySeed = 0, dataRecord = []\<rparr>],
      calls = []\<rparr> (\<lambda>seed. seed + 1) 1 None (- 1) =
   GetSecurityAccess
     \<lparr>inbox = [Some \<lparr>service = 0x67, returnCode = 0, requestServiceId = 0,
                     securitySeed = 5, dataRecord = []\<rparr>,
                Some \<lparr>service = 0x67, returnCode = 0, requestServiceId = 0,
                     securitySeed = 0, dataRecord = []\<rparr>],
      calls = [Sr1 (GMLAN_SA 1 None) None, Sr1 (GMLAN_SA 2 (Some 0x1235)) None]\<rparr>
     (\<lambda>seed. seed + 1) 1 None 0 \<and>
   GetSecurityAccess
     \<lparr>inbox = [Some \<lparr>service = 0x67, returnCode = 0, requestServiceId = 0,
                     securitySeed = 0x1234, dataRecord = []\<rparr>,
                Some \<lparr>service = 0x7f, returnCode = 0x35, requestServiceId = 0x27,
                     securitySeed = 0, dataRecord = []\<rparr>,
                Some \<lparr>service = 0x67, returnCode = 0, requestServiceId = 0,
                     securitySeed = 5, dataRecord = []\<rparr>,
                Some \<lparr>service = 0x67, returnCode = 0, requestServiceId = 0,
                     securitySeed = 0, dataRecord = []\<rparr>],
      calls = []\<rparr> (\<lambda>seed. seed + 1) 1 None (- 1) =
   (True, - 1,
    \<lparr>inbox = [],
     calls = [Sr1 (GMLAN_SA 1 None) None, Sr1 (GMLAN_SA 2 (Some 0x1235)) None,
              Sr1 (GMLAN_SA 1 None) None, Sr1 (GMLAN_SA 2 (Some 6)) None]\<rparr>)"
proof -
  let ?r = "\<lparr>service = 0x67, returnCode = 0, requestServiceId = 0,
      securitySeed = 0x1234, dataRecord = []\<rparr>"
  let ?k = "\<lparr>service = 0x7f, returnCode = 0x35, requestServiceId = 0x27,
      securitySeed = 0, dataRecord = []\<rparr>"
  let ?rest = "[Some \<lparr>service = 0x67, returnCode = 0, requestServiceId = 0,
                     securitySeed = 5, dataRecord = []\<rparr>,
                Some \<lparr>service = 0x67, returnCode = 0, requestServiceId = 0,
                     securitySeed = 0, dataRecord = []\<rparr>]"
  let ?s = "\<lparr>inbox = Some ?r # Some ?k # ?rest, calls = []\<rparr>"
  let ?s2 = "\<lparr>inbox = ?rest,
      calls = [Sr1 (GMLAN_SA 1 None) None, Sr1 (GMLAN_SA 2 (Some 0x1235)) None]\<rparr>"
  have h1: "(1::int) mod 2 \<noteq> 0" by simp
  have h2: "inbox ?s = Some ?r # Some ?k # ?rest" by simp
  have h3: "service ?r = 0x67" by simp
  have h4: "securitySeed ?r \<noteq> 0" by simp
  have h5: "?s2 = ?s\<lparr>inbox := ?rest,
      calls := calls ?s @ [Sr1 (GMLAN_SA 1 None) None,
        Sr1 (GMLAN_SA (1 + 1) (Some ((\<lambda>seed. seed + 1) (securitySeed ?r)))) None]\<rparr>"
    by simp
  have k: "\<exists>r2. Some ?k = Some r2 \<and> service r2 = 0x7f \<and> returnCode r2 = 0x35"
    by simp
  from GetSecurityAccess_key_step [where keyFunction = "\<lambda>seed. seed + 1" and level = 1
      and t = None and retry = "- 1" and s = ?s and r = ?r and x = "Some ?k" and rest = ?rest
      and ?s2.0 = ?s2, OF h1 h2 h3 h4 h5, THEN conjunct2, THEN conjunct1, rule_format, OF k]
  have a: "GetSecurityAccess ?s (\<lambda>seed. seed + 1) 1 None (- 1) =
      GetSecurityAccess ?s2 (\<lambda>seed. seed + 1) 1 None 0"
    by simp
  have b: "GetSecurityAccess ?s (\<lambda>seed. seed + 1) 1 None (- 1) =
   (True, - 1,
    \<lparr>inbox = [],
     calls = [Sr1 (GMLAN_SA 1 None) None, Sr1 (GMLAN_SA 2 (Some 0x1235)) None,
              Sr1 (GMLAN_SA 1 None) None, Sr1 (GMLAN_SA 2 (Some 6)) None]\<rparr>)"
    by (simp add: GetSecurityAccess_def GetSecurityAccess_loop.simps GetSecurityAccess_body_def
        eval_simps)
  show ?thesis by (intro conjI h1 h3 h4 a b)
qed

subsection \<open>Chunks of TransferData\<close>

text \<open>
  C4. When \<open>maxmsglen\<close> is \<open>None\<close>, not positive or above \<open>4093 - scheme\<close>, the
  chunk size used is \<open>4093 - scheme\<close>; and whatever the arguments and whatever arrives
  on the socket, every packet that a call of \<open>TransferData\<close> sends is a \<open>GMLAN_TD\<close>
  request whose data record has at most \<open>4093 - scheme\<close> bytes.
\<close>

theorem TransferData_chunk_size:
  "effective_maxmsglen scheme None = 4093 - int scheme \<and>
   (m \<le> 0 \<or> 4093 - int scheme < m \<longrightarrow>
      effective_maxmsglen scheme (Some m) = 4093 - int scheme) \<and>
   (\<forall>p\<in>set (sent (calls (snd (snd (TransferData scheme s addr payload maxmsglen t retry))))).
      p \<in> set (sent (calls s)) \<or>
      (\<exists>a d. p = GMLAN_TD a d \<and> int (length d) \<le> 4093 - int scheme))"
proof -
  let ?m = "effective_maxmsglen scheme maxmsglen"
  let ?offs = "range_from 0 (int (length payload)) ?m"
  let ?s' = "snd (snd (TransferData scheme s addr payload maxmsglen t retry))"
  have 1: "effective_maxmsglen scheme None = 4093 - int scheme"
    by (simp add: effective_maxmsglen_def)
  have 2: "m \<le> 0 \<or> 4093 - int scheme < m \<longrightarrow>
      effective_maxmsglen scheme (Some m) = 4093 - int scheme"
    by (simp add: effective_maxmsglen_def)
  obtain ks where ks: "sent (calls ?s') =
      sent (calls s) @ repeated (map (chunk_pkt addr payload ?m) ?offs) ks"
    using TransferData_sent [of payload scheme maxmsglen s addr t retry] by blast
  have 3: "\<forall>p\<in>set (sent (calls ?s')). p \<in> set (sent (calls s)) \<or>
      (\<exists>a d. p = GMLAN_TD a d \<and> int (length d) \<le> 4093 - int scheme)"
  proof
    fix p
    assume p: "p \<in> set (sent (calls ?s'))"
    show "p \<in> set (sent (calls s)) \<or>
      (\<exists>a d. p = GMLAN_TD a d \<and> int (length d) \<le> 4093 - int scheme)"
  proof (cases "p \<in> set (sent (calls s))")
    case True
    then show ?thesis ..
  next
    case False
    then have "p \<in> set (repeated (map (chunk_pkt addr payload ?m) ?offs) ks)"
      using p ks by simp
    then have "p \<in> set (map (chunk_pkt addr payload ?m) ?offs)"
      by (rule subsetD [OF set_repeated])
    then obtain i where i: "i \<in> set ?offs" "p = chunk_pkt addr payload ?m i"
      by auto
    have "0 < ?m" using range_from_bounds [OF i(1)] by simp
    then have "int (length (transdata payload ?m i)) \<le> ?m"
      by (simp add: length_transdata)
    then have "int (length (transdata payload ?m i)) \<le> 4093 - int scheme"
      using effective_maxmsglen_le [of scheme maxmsglen] by simp
    then show ?thesis using i(2) by (simp add: chunk_pkt_def)
  qed
  qed
  show ?thesis by (intro conjI 1 2 3)
qed

theorem TransferData_chunk_size_witness:
  "((5000::int) \<le> 0 \<or> 4093 - int 2 < 5000) \<and>
   effective_maxmsglen 2 (Some 5000) = 4091 \<and>
   sent (calls (snd (snd (TransferData 2
     \<lparr>inbox = [None, Some \<lparr>service = 0x76, returnCode = 0, requestServiceId = 0,
                  securitySeed = 0, dataRecord = []\<rparr>], calls = []\<rparr>
     0 [1, 2, 3] (Some 5000) None 1)))) = [GMLAN_TD 0 [1, 2, 3], GMLAN_TD 0 [1, 2, 3]]"
proof -
  have h: "(5000::int) \<le> 0 \<or> 4093 - int 2 < 5000" by simp
  have "effective_maxmsglen 2 (Some 5000) = 4093 - int 2"
    using TransferData_chunk_size [of 2 5000] h by blast
  then show ?thesis by (simp add: eval_simps)
qed

text \<open>
  C3. For a valid address and a payload that is not empty, with \<open>m\<close> the chunk size
  used: the offsets of the loop are \<open>0, m, 2 * m, ...\<close> below the length of the
  payload; the chunks taken at these offsets, in order, make up the payload, each being
  the (at most) \<open>m\<close> bytes from its offset and not empty; the packets sent are the
  requests \<open>GMLAN_TD (addr + i)\<close> carrying the chunk at offset \<open>i\<close>, in the order of
  the offsets, each sent one or more times in a row (the retries), down to the last
  offset when the call returns \<open>True\<close>. With the scheme 1, no \<open>maxmsglen\<close> and 10000
  bytes, the chunk size is 4092 and the offsets are 0, 4092 and 8184.
\<close>

theorem TransferData_chunks:
  assumes "0 \<le> addr" and "addr < 256 ^ scheme" and "payload \<noteq> []" and "scheme < 4093"
    and "m = effective_maxmsglen scheme maxmsglen"
    and "offs = range_from 0 (int (length payload)) m"
  shows "offs = map (\<lambda>j. int j * m) [0 ..< nat ((int (length payload) + m - 1) div m)] \<and>
     concat (map (transdata payload m) offs) = payload \<and>
     (\<forall>i\<in>set offs. transdata payload m i = take (nat m) (drop (nat i) payload) \<and>
        transdata payload m i \<noteq> []) \<and>
     (\<exists>ks. ks \<noteq> [] \<and> length ks \<le> length offs \<and> (\<forall>k\<in>set ks. 1 \<le> k) \<and>
        (fst (TransferData scheme s addr payload maxmsglen t retry) = Inr True \<longrightarrow>
           length ks = length offs) \<and>
        sent (calls (snd (snd (TransferData scheme s addr payload maxmsglen t retry)))) =
          sent (calls s) @
          repeated (map (\<lambda>i. GMLAN_TD (addr + i) (transdata payload m i)) offs) ks) \<and>
     (scheme = 1 \<and> maxmsglen = None \<and> length payload = 10000 \<longrightarrow>
        m = 4092 \<and> offs = [0, 4092, 8184])"
proof -
  have m: "0 < m" using assms(4,5) by (simp add: effective_maxmsglen_pos)
  have 1: "offs = map (\<lambda>j. int j * m) [0 ..< nat ((int (length payload) + m - 1) div m)]"
    using m assms(6) by (simp add: range_from_map)
  have 2: "concat (map (transdata payload m) offs) = payload"
    using concat_transdata [OF m, of 0 payload] assms(6) by simp
  have 3: "\<forall>i\<in>set offs. transdata payload m i = take (nat m) (drop (nat i) payload) \<and>
        transdata payload m i \<noteq> []"
  proof
    fix i
    assume "i \<in> set offs"
    then have "0 \<le> i \<and> i < int (length payload)"
      using range_from_bounds [of i 0 "int (length payload)" m] assms(6) by simp
    then show "transdata payload m i = take (nat m) (drop (nat i) payload) \<and>
        transdata payload m i \<noteq> []"
      using m by (auto simp: transdata_def)
  qed
  have eq: "chunk_pkt addr payload m = (\<lambda>i. GMLAN_TD (addr + i) (transdata payload m i))"
    by (rule ext) (simp add: chunk_pkt_def)
  obtain ks where ks: "length ks \<le> length offs"
    "fst (TransferData scheme s addr payload maxmsglen t retry) = Inr True \<longrightarrow>
        length ks = length offs"
    "ks \<noteq> []" "\<forall>k\<in>set ks. 1 \<le> k \<and> int k \<le> \<bar>retry\<bar> + 1"
    "sent (calls (snd (snd (TransferData scheme s addr payload maxmsglen t retry)))) =
       sent (calls s) @ repeated (map (chunk_pkt addr payload m) offs) ks"
    using TransferData_sent [of payload scheme maxmsglen s addr t retry] assms by blast
  have 4: "\<exists>ks. ks \<noteq> [] \<and> length ks \<le> length offs \<and> (\<forall>k\<in>set ks. 1 \<le> k) \<and>
        (fst (TransferData scheme s addr payload maxmsglen t retry) = Inr True \<longrightarrow>
           length ks = length offs) \<and>
        sent (calls (snd (snd (TransferData scheme s addr payload maxmsglen t retry)))) =
          sent (calls s) @
          repeated (map (\<lambda>i. GMLAN_TD (addr + i) (transdata payload m i)) offs) ks"
    unfolding eq [symmetric]
    by (rule exI [of _ ks]) (use ks in simp)
  have 5: "scheme = 1 \<and> maxmsglen = None \<and> length payload = 10000 \<longrightarrow>
      m = 4092 \<and> offs = [0, 4092, 8184]"
    using assms(5,6) by (simp add: effective_maxmsglen_def range_from_step range_from_stop)
  show ?thesis by (intro conjI 1 2 3 4 5)
qed

theorem TransferData_chunks_witness:
  "(0::int) \<le> 16 \<and> (16::int) < 256 ^ 1 \<and> replicate 10000 (0::byte) \<noteq> [] \<and> (1::nat) < 4093 \<and>
   4092 = effective_maxmsglen 1 None \<and>
   [0, 4092, 8184] = range_from 0 (int (length (replicate 10000 (0::byte)))) 4092 \<and>
   concat (map (transdata (replicate 10000 0) 4092) [0, 4092, 8184]) = replicate 10000 0 \<and>
   TransferData 1
     \<lparr>inbox = [Some \<lparr>service = 0x76, returnCode = 0, requestServiceId = 0,
                  securitySeed = 0, dataRecord = []\<rparr>,
                Some \<lparr>service = 0x76, returnCode = 0, requestServiceId = 0,
                  securitySeed = 0, dataRecord = []\<rparr>,
                Some \<lparr>service = 0x76, returnCode = 0, requestServiceId = 0,
                  securitySeed = 0, dataRecord = []\<rparr>], calls = []\<rparr>
     16 (replicate 10000 0) None None 0 =
   (Inr True, 0,
    \<lparr>inbox = [],
     calls = [Sr1 (GMLAN_TD 16 (replicate 4092 0)) None,
              Sr1 (GMLAN_TD 4108 (replicate 4092 0)) None,
              Sr1 (GMLAN_TD 8200 (replicate 1816 0)) None]\<rparr>)"
proof -
  have h1: "(0::int) \<le> 16" and h2: "(16::int) < 256 ^ 1"
    and h3: "replicate 10000 (0::byte) \<noteq> []" and h4: "(1::nat) < 4093"
    by simp_all
  have h5: "4092 = effective_maxmsglen 1 None"
    by (simp add: effective_maxmsglen_def)
  have h6: "[0, 4092, 8184] = range_from 0 (int (length (replicate 10000 (0::byte)))) 4092"
    by (simp add: range_from_step range_from_stop)
  have c: "concat (map (transdata (replicate 10000 0) 4092) [0, 4092, 8184]) = replicate 10000 (0::byte)"
    using TransferData_chunks [OF h1 h2 h3 h4 h5 h6] by blast
  have e: "TransferData 1
     \<lparr>inbox = [Some \<lparr>service = 0x76, returnCode = 0, requestServiceId = 0,
                  securitySeed = 0, dataRecord = []\<rparr>,
                Some \<lparr>service = 0x76, returnCode = 0, requestServiceId = 0,
                  securitySeed = 0, dataRecord = []\<rparr>,
                Some \<lparr>service = 0x76, returnCode = 0, requestServiceId = 0,
                  securitySeed = 0, dataRecord = []\<rparr>], calls = []\<rparr>
     16 (replicate 10000 0) None None 0 =
   (Inr True, 0,
    \<lparr>inbox = [],
     calls = [Sr1 (GMLAN_TD 16 (replicate 4092 0)) None,
              Sr1 (GMLAN_TD 4108 (replicate 4092 0)) None,
              Sr1 (GMLAN_TD 8200 (replicate 1816 0)) None]\<rparr>)"
    by (simp add: eval_simps)
  show ?thesis by (intro conjI h1 h2 h3 h4 h5 h6 c e)
qed

lemma request_loop_first_call:
  "\<exists>cs. calls (snd (snd (request_loop sid code pkt t retry s))) = calls s @ Sr1 pkt t # cs"
proof (induction sid code pkt t retry s rule: request_loop.induct)
  case (1 sid code pkt t retry s)
  obtain x s1 where a: "request_attempt sid pkt t s = (x, s1)"
    by (cases "request_attempt sid pkt t s")
  have "calls (snd (request_attempt sid pkt t s)) =
      calls s @ Sr1 pkt t # replicate (length (takeWhile (pend sid) (inbox s))) (Sniff pkt t)"
    by (simp add: request_attempt_eq)
  then have s1: "\<exists>cs. calls s1 = calls s @ Sr1 pkt t # cs"
    using a by simp
  show ?case
  proof (cases "\<not> is_positive code x \<and> retry - 1 \<ge> 0")
    case False
    then show ?thesis
      using a s1 by (auto simp: request_loop.simps [of sid code pkt t retry s])
  next
    case True
    then have e: "request_loop sid code pkt t retry s = request_loop sid code pkt t (retry - 1) s1"
      using a by (simp add: request_loop.simps [of sid code pkt t retry s])
    obtain cs where cs: "calls s1 = calls s @ Sr1 pkt t # cs" using s1 by blast
    obtain ds where "calls (snd (snd (request_loop sid code pkt t (retry - 1) s1))) =
        calls s1 @ Sr1 pkt t # ds"
      using "1.IH" [OF a [symmetric]] True by blast
    then show ?thesis
      unfolding e cs by simp
  qed
qed

lemma TransferData_chunk_first_call:
  "\<exists>cs. calls (snd (snd (TransferData_chunk addr payload m i t retry s))) =
     calls s @ Sr1 (GMLAN_TD (addr + i) (transdata payload m i)) t # cs"
  using request_loop_first_call [where sid = "0x36" and code = "0x76"
      and pkt = "GMLAN_TD (addr + i) (transdata payload m i)" and t = t and retry = retry and s = s]
  by (simp add: TransferData_chunk_eq case_prod_beta)

lemma TransferData_for_calls:
  "\<exists>cs. calls (snd (snd (TransferData_for addr payload m t startretry offs retry s))) = calls s @ cs"
proof (induction offs arbitrary: retry s)
  case Nil
  then show ?case by simp
next
  case (Cons i offs)
  obtain ok r1 s1 where c: "TransferData_chunk addr payload m i t startretry s = (ok, r1, s1)"
    by (cases "TransferData_chunk addr payload m i t startretry s")
  obtain cs where cs: "calls s1 = calls s @ Sr1 (GMLAN_TD (addr + i) (transdata payload m i)) t # cs"
    using TransferData_chunk_first_call [of addr payload m i t startretry s] c by auto
  obtain ds where ds: "calls (snd (snd (TransferData_for addr payload m t startretry offs r1 s1))) =
      calls s1 @ ds"
    using Cons.IH by blast
  show ?case
    using c cs ds by (cases ok) simp_all
qed

lemma TransferData_chunk_ack:
  assumes "inbox s = Some r # rest" and "service r = 0x76"
  shows "TransferData_chunk addr payload m i t retry s =
     (True, retry,
      s\<lparr>inbox := rest, calls := calls s @ [Sr1 (GMLAN_TD (addr + i) (transdata payload m i)) t]\<rparr>)"
proof -
  have "\<not> pend 0x36 (Some r)"
    using assms(2) by (simp add: pend_def is_ResponsePending_def)
  then show ?thesis
    using assms
    by (simp add: TransferData_chunk.simps [of _ _ _ _ _ _ s] request_attempt_eq
        next_terminal_def is_positive_def)
qed

lemma TransferData_for_acks:
  assumes "inbox s = map Some rs @ rest" and "\<forall>r\<in>set rs. service r = 0x76"
    and "length rs \<le> length offs"
  shows "(length rs = length offs \<longrightarrow>
        fst (TransferData_for addr payload m t startretry offs retry s) = True \<and>
        snd (snd (TransferData_for addr payload m t startretry offs retry s)) =
          s\<lparr>inbox := rest,
            calls := calls s @
              map (\<lambda>i. Sr1 (GMLAN_TD (addr + i) (transdata payload m i)) t) offs\<rparr>) \<and>
     (length rs < length offs \<longrightarrow>
        (\<exists>cs. calls (snd (snd (TransferData_for addr payload m t startretry offs retry s))) =
           calls s @
           map (\<lambda>i. Sr1 (GMLAN_TD (addr + i) (transdata payload m i)) t) (take (length rs) offs) @
           Sr1 (GMLAN_TD (addr + offs ! length rs) (transdata payload m (offs ! length rs))) t # cs))"
  using assms
proof (induction offs arbitrary: rs s retry)
  case Nil
  then show ?case by simp
next
  case (Cons i offs)
  show ?case
  proof (cases rs)
    case Nil
    obtain ok r1 s1 where c: "TransferData_chunk addr payload m i t startretry s = (ok, r1, s1)"
      by (cases "TransferData_chunk addr payload m i t startretry s")
    obtain cs where cs: "calls s1 = calls s @ Sr1 (GMLAN_TD (addr + i) (transdata payload m i)) t # cs"
      using TransferData_chunk_first_call [of addr payload m i t startretry s] c by auto
    obtain ds where ds: "calls (snd (snd (TransferData_for addr payload m t startretry offs r1 s1))) =
        calls s1 @ ds"
      using TransferData_for_calls by blast
    show ?thesis
      using Nil c cs ds by (cases ok) simp_all
  next
    case (Cons r rs')
    let ?s1 = "s\<lparr>inbox := map Some rs' @ rest,
        calls := calls s @ [Sr1 (GMLAN_TD (addr + i) (transdata payload m i)) t]\<rparr>"
    have i1: "inbox s = Some r # (map Some rs' @ rest)"
      using Cons Cons.prems(1) by simp
    have i2: "service r = 0x76"
      using Cons Cons.prems(2) by simp
    have c: "TransferData_chunk addr payload m i t startretry s = (True, startretry, ?s1)"
      by (rule TransferData_chunk_ack [OF i1 i2])
    have ih: "(length rs' = length offs \<longrightarrow>
        fst (TransferData_for addr payload m t startretry offs startretry ?s1) = True \<and>
        snd (snd (TransferData_for addr payload m t startretry offs startretry ?s1)) =
          ?s1\<lparr>inbox := rest,
            calls := calls ?s1 @
              map (\<lambda>i. Sr1 (GMLAN_TD (addr + i) (transdata payload m i)) t) offs\<rparr>) \<and>
     (length rs' < length offs \<longrightarrow>
        (\<exists>cs. calls (snd (snd (TransferData_for addr payload m t startretry offs startretry ?s1))) =
           calls ?s1 @
           map (\<lambda>i. Sr1 (GMLAN_TD (addr + i) (transdata payload m i)) t) (take (length rs') offs) @
           Sr1 (GMLAN_TD (addr + offs ! length rs') (transdata payload m (offs ! length rs'))) t # cs))"
      using Cons Cons.prems by (intro Cons.IH) simp_all
    show ?thesis
      using Cons c ih by simp
  qed
qed

text \<open>
  C10. \<open>TransferData\<close> compares only \<open>addr\<close> with the range of the scheme: an \<open>addr\<close>
  outside \<open>[0, 256 ^ scheme)\<close> returns \<open>False\<close> with the socket untouched, and no
  later address is looked at. With \<open>addr\<close> in range, let the chunks before the one at
  offset \<open>i\<close> be acknowledged (one positive response, service 0x76, for each). Then
  after these requests \<open>sr1\<close> is called with the request \<open>GMLAN_TD (addr + i)\<close> for
  that chunk, wherever \<open>addr + i\<close> lies, also at or beyond \<open>256 ^ scheme\<close>; and when
  every chunk is acknowledged the call returns \<open>True\<close> having made exactly one request
  for each chunk. What the packet class makes of a starting address that does not fit
  the scheme when the request is built for the wire lies outside the module.
\<close>

theorem TransferData_later_chunks:
  assumes "scheme < 4093" and "m = effective_maxmsglen scheme maxmsglen"
    and "offs = range_from 0 (int (length payload)) m"
    and "inbox s = map Some rs @ rest" and "\<forall>r\<in>set rs. service r = 0x76"
  shows "(addr < 0 \<or> 256 ^ scheme \<le> addr \<longrightarrow>
        TransferData scheme s addr payload maxmsglen t retry =
          (Inr False, normalize_retry retry, s)) \<and>
     (0 \<le> addr \<and> addr < 256 ^ scheme \<and> length rs < length offs \<longrightarrow>
        (\<exists>cs. calls (snd (snd (TransferData scheme s addr payload maxmsglen t retry))) =
           calls s @
           map (\<lambda>i. Sr1 (GMLAN_TD (addr + i) (transdata payload m i)) t) (take (length rs) offs) @
           Sr1 (GMLAN_TD (addr + offs ! length rs) (transdata payload m (offs ! length rs))) t # cs)) \<and>
     (0 \<le> addr \<and> addr < 256 ^ scheme \<and> length rs = length offs \<longrightarrow>
        fst (TransferData scheme s addr payload maxmsglen t retry) = Inr True \<and>
        snd (snd (TransferData scheme s addr payload maxmsglen t retry)) =
          s\<lparr>inbox := rest,
            calls := calls s @
              map (\<lambda>i. Sr1 (GMLAN_TD (addr + i) (transdata payload m i)) t) offs\<rparr>)"
proof -
  let ?r = "TransferData scheme s addr payload maxmsglen t retry"
  let ?f = "TransferData_for addr payload m t (normalize_retry retry) offs (normalize_retry retry) s"
  have m: "m \<noteq> 0"
    using assms(1,2) effective_maxmsglen_pos [of scheme maxmsglen] by simp
  have 1: "addr < 0 \<or> 256 ^ scheme \<le> addr \<longrightarrow> ?r = (Inr False, normalize_retry retry, s)"
    by (auto simp: TransferData_def Let_def pow256)
  have u: "fst ?r = Inr (fst ?f) \<and> snd (snd ?r) = snd (snd ?f)"
    if "0 \<le> addr \<and> addr < 256 ^ scheme"
    using that m assms(2,3) TransferData_unfold [of addr scheme maxmsglen s payload t retry]
    by (simp add: case_prod_beta)
  have 2: "0 \<le> addr \<and> addr < 256 ^ scheme \<and> length rs < length offs \<longrightarrow>
        (\<exists>cs. calls (snd (snd ?r)) =
           calls s @
           map (\<lambda>i. Sr1 (GMLAN_TD (addr + i) (transdata payload m i)) t) (take (length rs) offs) @
           Sr1 (GMLAN_TD (addr + offs ! length rs) (transdata payload m (offs ! length rs))) t # cs)"
  proof
    assume a: "0 \<le> addr \<and> addr < 256 ^ scheme \<and> length rs < length offs"
    then have le: "length rs \<le> length offs" by simp
    from TransferData_for_acks [OF assms(4,5) le, THEN conjunct2, rule_format, of addr payload m t
        "normalize_retry retry" "normalize_retry retry"] a
    show "\<exists>cs. calls (snd (snd ?r)) =
           calls s @
           map (\<lambda>i. Sr1 (GMLAN_TD (addr + i) (transdata payload m i)) t) (take (length rs) offs) @
           Sr1 (GMLAN_TD (addr + offs ! length rs) (transdata payload m (offs ! length rs))) t # cs"
      using u by simp
  qed
  have 3: "0 \<le> addr \<and> addr < 256 ^ scheme \<and> length rs = length offs \<longrightarrow>
        fst ?r = Inr True \<and>
        snd (snd ?r) =
          s\<lparr>inbox := rest,
            calls := calls s @
              map (\<lambda>i. Sr1 (GMLAN_TD (addr + i) (transdata payload m i)) t) offs\<rparr>"
  proof
    assume a: "0 \<le> addr \<and> addr < 256 ^ scheme \<and> length rs = length offs"
    then have le: "length rs \<le> length offs" by simp
    from TransferData_for_acks [OF assms(4,5) le, THEN conjunct1, rule_format, of addr payload m t
        "normalize_retry retry" "normalize_retry retry"] a
    show "fst ?r = Inr True \<and>
        snd (snd ?r) =
          s\<lparr>inbox := rest,
            calls := calls s @
              map (\<lambda>i. Sr1 (GMLAN_TD (addr + i) (transdata payload m i)) t) offs\<rparr>"
      using u by simp
  qed
  show ?thesis by (intro conjI 1 2 3)
qed

theorem TransferData_later_chunks_witness:
  "(1::nat) < 4093 \<and> 2 = effective_maxmsglen 1 (Some 2) \<and>
   [0, 2] = range_from 0 (int (length [1, 2, 3::byte])) 2 \<and>
   service \<lparr>service = 0x76, returnCode = 0, requestServiceId = 0,
      securitySeed = 0, dataRecord = []\<rparr> = 0x76 \<and>
   (0::int) \<le> 255 \<and> (255::int) < 256 ^ 1 \<and> (256::int) ^ 1 \<le> 255 + [0, 2] ! 1 \<and>
   (\<exists>cs. calls (snd (snd (TransferData 1
        \<lparr>inbox = [Some \<lparr>service = 0x76, returnCode = 0, requestServiceId = 0,
                        securitySeed = 0, dataRecord = []\<rparr>, None], calls = []\<rparr>
        255 [1, 2, 3] (Some 2) None 0))) =
      [Sr1 (GMLAN_TD 255 [1, 2]) None, Sr1 (GMLAN_TD 257 [3]) None] @ cs) \<and>
   TransferData 1
     \<lparr>inbox = [Some \<lparr>service = 0x76, returnCode = 0, requestServiceId = 0,
                     securitySeed = 0, dataRecord = []\<rparr>, None], calls = []\<rparr>
     255 [1, 2, 3] (Some 2) None 0 =
   (Inr False, - 1,
    \<lparr>inbox = [],
     calls = [Sr1 (GMLAN_TD 255 [1, 2]) None, Sr1 (GMLAN_TD 257 [3]) None]\<rparr>)"
proof -
  let ?ok = "\<lparr>service = 0x76, returnCode = 0, requestServiceId = 0,
      securitySeed = 0, dataRecord = []\<rparr>"
  let ?s = "\<lparr>inbox = [Some ?ok, None], calls = []\<rparr>"
  have h1: "(1::nat) < 4093" by simp
  have h2: "2 = effective_maxmsglen 1 (Some 2)"
    by (simp add: effective_maxmsglen_def)
  have h3: "[0, 2] = range_from 0 (int (length [1, 2, 3::byte])) 2"
    by (simp add: range_from_step range_from_stop)
  have h4: "inbox ?s = map Some [?ok] @ [None]" by simp
  have h5: "\<forall>r\<in>set [?ok]. service r = 0x76" by simp
  have h6: "service ?ok = 0x76" by simp
  have h7: "(0::int) \<le> 255" and h8: "(255::int) < 256 ^ 1"
    and h9: "(256::int) ^ 1 \<le> 255 + [0, 2] ! 1"
    by simp_all
  have g: "0 \<le> (255::int) \<and> (255::int) < 256 ^ 1 \<and> length [?ok] < length [0, 2::int]"
    by simp
  from TransferData_later_chunks [where addr = 255 and t = None and retry = 0,
      OF h1 h2 h3 h4 h5, THEN conjunct2, THEN conjunct1, rule_format, OF g]
  have c: "\<exists>cs. calls (snd (snd (TransferData 1 ?s 255 [1, 2, 3] (Some 2) None 0))) =
      [Sr1 (GMLAN_TD 255 [1, 2]) None, Sr1 (GMLAN_TD 257 [3]) None] @ cs"
    by (simp add: transdata_def)
  have e: "TransferData 1 ?s 255 [1, 2, 3] (Some 2) None 0 =
   (Inr False, - 1,
    \<lparr>inbox = [],
     calls = [Sr1 (GMLAN_TD 255 [1, 2]) None, Sr1 (GMLAN_TD 257 [3]) None]\<rparr>)"
    by (simp add: eval_simps)
  show ?thesis by (intro conjI h1 h2 h3 h6 h7 h8 h9 c e)
qed

end
